theory Spec2Isabelle
  imports Complex_Main
begin

section \<open>The reduction kernel of webnn-baseline (src/reduce.js)\<close>

text \<open>
  The JavaScript of \<^verbatim>\<open>src/reduce.js\<close> works on arrays that live on the heap: the
  caller's \<^verbatim>\<open>axes\<close> array is sorted in place, the input tensor's shape and data arrays
  are read, and the output tensor is allocated.  The embedding therefore threads an explicit
  store through \<^verbatim>\<open>reduce\<close>.  An array is addressed by its position in the store, and
  allocation appends to the store, so a reference handed out later never equals an earlier
  one.

  The store holds every array that crosses an object boundary: the arrays of the caller
  (the input's shape and data, the axes), the default axes array and \<^verbatim>\<open>outputShape\<close>
  (both handed to collaborators), the arrays of the tensors that are built.  The arrays that
  live and die inside one statement block of \<^verbatim>\<open>reduce\<close> (\<^verbatim>\<open>reduceDims\<close>,
  \<^verbatim>\<open>reduceStrides\<close>, \<^verbatim>\<open>inputLocation\<close>, \<^verbatim>\<open>valuesToReduce\<close>) are plain list values.

  Index arrays hold naturals: \<^verbatim>\<open>MLReduceOptions.axes\<close> is a sequence of unsigned
  integers, and a shape is a sequence of extents.  The store keeps index arrays and element
  buffers apart, each with references of its own, so an axes array may be the very array of
  a shape.  JavaScript has one kind of array, and nothing in \<^verbatim>\<open>reduce\<close> keeps the caller
  from passing as \<^verbatim>\<open>axes\<close> an array that is also the data of a tensor, the input's own for
  one.  Such an array is held twice, at an index reference and at an element reference with
  the same numbers (\<open>shared_array\<close>), and a call on it is \<open>reduce_with_shared_axes\<close>, which
  keeps the two in step.  JavaScript numbers are modelled by exact
  arithmetic (the engine is polymorphic in the element type; the named reducers work on
  \<^typ>\<open>real\<close>), so rounding, NaN and the infinities are outside the model.
\<close>

subsection \<open>Store, tensors, errors\<close>

type_synonym ref = nat

text \<open>
  What \<^verbatim>\<open>reduce\<close> can throw.  ShapeError and ArityError are the validation errors of the
  spec; TypeError is what \<^verbatim>\<open>Array.prototype.reduce\<close> throws on an empty array without an
  initial value (line 51); RangeError stands for a use of a tensor's accessors outside the
  tensor (a location outside the shape, a flat index past the last element).
\<close>

datatype error =
    ShapeError
  | ArityError
  | TypeError
  | RangeError

record 'a store =
  arrays :: "nat list list"
  buffers :: "'a list list"

record tensor =
  shape :: ref
  data :: ref

text \<open>The options of a call; \<^verbatim>\<open>axes\<close> is a reference to the caller's array, or absent.  The
  defaults of line 16 are \<open>keepDimensions = False\<close> and \<open>axes = None\<close>.\<close>

record MLReduceOptions =
  keepDimensions :: bool
  axes :: "ref option"

text \<open>The callback of \<^verbatim>\<open>Array.prototype.reduce\<close>:
  \<^verbatim>\<open>(previousValue, currentValue, currentIndex, array)\<close>.\<close>

type_synonym 'a reducer = "'a \<Rightarrow> 'a \<Rightarrow> nat \<Rightarrow> 'a list \<Rightarrow> 'a"

definition new_array :: "nat list \<Rightarrow> 'a store \<Rightarrow> ref \<times> 'a store" where
  "new_array xs s = (length (arrays s), s\<lparr>arrays := arrays s @ [xs]\<rparr>)"

text \<open>
  \<^verbatim>\<open>a[i] = v\<close> on a JavaScript array.  Inside the array it overwrites; past the end it
  extends the array.  The slots it skips are holes in JavaScript, which a list of naturals
  cannot hold: the model writes 0 there.  Every call of \<^verbatim>\<open>reduce\<close> that passes validation
  writes inside the array only (lemma \<open>fold_assign_in_range\<close> below).
\<close>

definition array_assign :: "nat list \<Rightarrow> nat \<Rightarrow> nat \<Rightarrow> nat list" where
  "array_assign xs i v =
     (if i < length xs then xs[i := v] else xs @ replicate (i - length xs) 0 @ [v])"

definition store_assign :: "ref \<Rightarrow> nat \<Rightarrow> nat \<Rightarrow> 'a store \<Rightarrow> 'a store" where
  "store_assign r i v s = s\<lparr>arrays := (arrays s)[r := array_assign (arrays s ! r) i v]\<rparr>"

text \<open>\<^verbatim>\<open>a.sort((a, b) => a - b)\<close>: ascending, in place.\<close>

definition sort_in_place :: "ref \<Rightarrow> 'a store \<Rightarrow> 'a store" where
  "sort_in_place r s = s\<lparr>arrays := (arrays s)[r := sort (arrays s ! r)]\<rparr>"


text \<open>
  \<^verbatim>\<open>Array.prototype.reduce(callback)\<close> with no initial value: the first element starts
  the accumulator, the callback is applied to the elements 1, 2, ... in ascending order, and
  an empty array raises a TypeError.
\<close>

definition array_reduce :: "'a reducer \<Rightarrow> 'a list \<Rightarrow> error + 'a" where
  "array_reduce callback array =
     (case array of
        [] \<Rightarrow> Inl TypeError
      | x # _ \<Rightarrow> Inr (fold (\<lambda>k acc. callback acc (array ! k) k array) [1..<length array] x))"

text \<open>The first error of a sequence of fallible reads, or all their values.\<close>

fun collect :: "(error + 'a) list \<Rightarrow> error + 'a list" where
  "collect [] = Inr []"
| "collect (Inl e # rs) = Inl e"
| "collect (Inr v # rs) = (case collect rs of Inl e \<Rightarrow> Inl e | Inr vs \<Rightarrow> Inr (v # vs))"

subsection \<open>Collaborators of \<^verbatim>\<open>lib/tensor.js\<close>, \<^verbatim>\<open>lib/validate-input.js\<close>, \<^verbatim>\<open>squeeze.js\<close>\<close>

text \<open>
  Modelled from the spec: \<^verbatim>\<open>sizeOfShape\<close> of \<^verbatim>\<open>lib/tensor.js\<close> is not among the
  sources.  The spec: "given a shape, computes total element count", the product of the
  shape's entries (1 for the empty shape).
\<close>

definition sizeOfShape :: "nat list \<Rightarrow> nat" where
  "sizeOfShape array = prod_list array"

text \<open>
  Modelled from the spec: the class \<^verbatim>\<open>Tensor\<close> of \<^verbatim>\<open>lib/tensor.js\<close> is not among the
  sources.  The spec: a tensor has a shape, rank = length of the shape, and "converts between
  a flat index and a coordinate location, and vice versa, for a row-major (last axis
  fastest) layout"; it exposes \<^verbatim>\<open>locationFromIndex\<close>, \<^verbatim>\<open>getValueByLocation\<close>,
  \<^verbatim>\<open>setValueByIndex\<close> and construction from a shape.  The spec fixes these methods on
  locations inside the shape and on indices below the element count only; elsewhere the
  model answers RangeError, so that every use \<^verbatim>\<open>reduce\<close> makes of them is shown to stay
  inside.
\<close>

fun rowMajorIndex :: "nat list \<Rightarrow> nat list \<Rightarrow> nat" where
  "rowMajorIndex (d # ds) (c # cs) = c * sizeOfShape ds + rowMajorIndex ds cs"
| "rowMajorIndex _ _ = 0"

fun rowMajorLocation :: "nat list \<Rightarrow> nat \<Rightarrow> nat list" where
  "rowMajorLocation [] index = []"
| "rowMajorLocation (d # ds) index =
     (index div sizeOfShape ds) # rowMajorLocation ds (index mod sizeOfShape ds)"

definition rank :: "'a store \<Rightarrow> tensor \<Rightarrow> nat" where
  "rank s t = length (arrays s ! shape t)"

definition locationFromIndex :: "'a store \<Rightarrow> tensor \<Rightarrow> nat \<Rightarrow> error + nat list" where
  "locationFromIndex s t index =
     (let sh = arrays s ! shape t
      in if index < sizeOfShape sh then Inr (rowMajorLocation sh index) else Inl RangeError)"

definition getValueByLocation :: "'a store \<Rightarrow> tensor \<Rightarrow> nat list \<Rightarrow> error + 'a" where
  "getValueByLocation s t location =
     (let sh = arrays s ! shape t; buf = buffers s ! data t
      in if list_all2 (<) location sh \<and> rowMajorIndex sh location < length buf
         then Inr (buf ! rowMajorIndex sh location)
         else Inl RangeError)"

definition setValueByIndex :: "tensor \<Rightarrow> nat \<Rightarrow> 'a \<Rightarrow> 'a store \<Rightarrow> error + 'a store" where
  "setValueByIndex t index v s =
     (let buf = buffers s ! data t
      in if index < length buf
         then Inr (s\<lparr>buffers := (buffers s)[data t := buf[index := v]]\<rparr>)
         else Inl RangeError)"

text \<open>\<^verbatim>\<open>new Tensor(shape)\<close>: the tensor keeps the shape array it is given and allocates
  a buffer of \<^verbatim>\<open>sizeOfShape(shape)\<close> zeros.\<close>

definition new_Tensor :: "ref \<Rightarrow> 'a::zero store \<Rightarrow> tensor \<times> 'a store" where
  "new_Tensor shape_ref s =
     (\<lparr>shape = shape_ref, data = length (buffers s)\<rparr>,
      s\<lparr>buffers := buffers s @ [replicate (sizeOfShape (arrays s ! shape_ref)) 0]\<rparr>)"

text \<open>
  Modelled from the spec: \<^verbatim>\<open>validateReduceParams\<close> of \<^verbatim>\<open>lib/validate-input.js\<close> is not
  among the sources.  The spec: "axes are in range, contain no duplicates, and the combining
  function is compatible with the input's element count"; ShapeError is "axis index outside
  [0, rank), or duplicate axis in the axis set", ArityError is "combining function not
  applicable to the element count being folded (e.g., empty reduction set ...)".
\<close>

definition validateReduceParams ::
  "'a store \<Rightarrow> tensor \<Rightarrow> 'a reducer \<Rightarrow> bool \<Rightarrow> ref \<Rightarrow> error + unit" where
  "validateReduceParams s input reduceFunc keepDims inpAxes =
     (let axs = arrays s ! inpAxes; sh = arrays s ! shape input
      in if \<not> list_all (\<lambda>axis. axis < rank s input) axs then Inl ShapeError
         else if \<not> distinct axs then Inl ShapeError
         else if sizeOfShape (map (\<lambda>axis. sh ! axis) axs) = 0 then Inl ArityError
         else Inr ())"

text \<open>
  Modelled from the spec: \<^verbatim>\<open>squeeze\<close> of \<^verbatim>\<open>squeeze.js\<close> is not among the sources.  The
  spec: "\<^verbatim>\<open>squeeze(Array) -> Array\<close> removing all size-1 axes (rank may drop to 0)".  The
  result is a tensor with a shape array of its own over the buffer of its argument.
\<close>

definition squeeze :: "tensor \<Rightarrow> 'a store \<Rightarrow> tensor \<times> 'a store" where
  "squeeze t s =
     (let (r, s') = new_array (filter (\<lambda>d. d \<noteq> 1) (arrays s ! shape t)) s
      in (\<lparr>shape = r, data = data t\<rparr>, s'))"

subsection \<open>\<^verbatim>\<open>reduce\<close> (src/reduce.js, lines 16-59)\<close>

text \<open>Lines 20-22: \<^verbatim>\<open>outputShape[inpAxes[i]] = 1\<close> for every entry of \<^verbatim>\<open>inpAxes\<close>.\<close>

definition outputShape_loop :: "ref \<Rightarrow> ref \<Rightarrow> 'a store \<Rightarrow> 'a store" where
  "outputShape_loop outputShape inpAxes s =
     fold (\<lambda>i st. store_assign outputShape (arrays st ! inpAxes ! i) 1 st)
       [0..<length (arrays s ! inpAxes)] s"

text \<open>
  Lines 30-34: \<^verbatim>\<open>reduceStrides\<close>.  The loop counter \<open>i\<close> of the source runs from
  \<open>length - 2\<close> down to 0; the second argument of \<open>reduceStrides_loop\<close> is \<open>i + 1\<close>.
  \<^verbatim>\<open>new Array(n)\<close> holds \<open>n\<close> holes, written 0 here; each is overwritten.  On an empty
  array line 31 sets the property \<^verbatim>\<open>-1\<close>, which is no element of the array.
\<close>

fun reduceStrides_loop :: "nat list \<Rightarrow> nat \<Rightarrow> nat list \<Rightarrow> nat list" where
  "reduceStrides_loop reduceDims 0 reduceStrides = reduceStrides"
| "reduceStrides_loop reduceDims (Suc i) reduceStrides =
     reduceStrides_loop reduceDims i
       (reduceStrides[i := reduceStrides ! (i + 1) * reduceDims ! (i + 1)])"

definition reduceStrides_of :: "nat list \<Rightarrow> nat list" where
  "reduceStrides_of reduceDims =
     (let n = length reduceDims
      in reduceStrides_loop reduceDims (n - 1) ((replicate n 0)[n - 1 := 1]))"

text \<open>
  Lines 42-48: the input location of reduce-index \<open>reduceIndex\<close>, starting from the
  location of the output element.  \<^verbatim>\<open>Math.floor(a / b)\<close> on naturals is \<open>a div b\<close> when
  \<open>b\<close> is positive; a zero stride needs a zero extent, and then \<open>reduceElements\<close> is 0 and
  the body does not run.
\<close>

definition inputLocation_of :: "nat list \<Rightarrow> nat list \<Rightarrow> nat list \<Rightarrow> nat \<Rightarrow> nat list" where
  "inputLocation_of inpAxes reduceStrides outputLocation reduceIndex =
     fst (fold (\<lambda>i (inputLocation, remainingReduceIndex).
                  let axis = inpAxes ! i;
                      c = remainingReduceIndex div reduceStrides ! i
                  in (array_assign inputLocation axis c,
                      remainingReduceIndex - c * reduceStrides ! i))
            [0..<length inpAxes] (outputLocation, reduceIndex))"

text \<open>Lines 38-50: the values to reduce for one output index, in ascending reduce-index
  order.\<close>

definition valuesToReduce_of ::
  "'a store \<Rightarrow> tensor \<Rightarrow> tensor \<Rightarrow> nat list \<Rightarrow> nat list \<Rightarrow> nat \<Rightarrow> nat \<Rightarrow> error + 'a list" where
  "valuesToReduce_of s input output inpAxes reduceStrides reduceElements outputIndex =
     collect (map (\<lambda>reduceIndex.
                case locationFromIndex s output outputIndex of
                  Inl e \<Rightarrow> Inl e
                | Inr outputLocation \<Rightarrow>
                    getValueByLocation s input
                      (inputLocation_of inpAxes reduceStrides outputLocation reduceIndex))
              [0..<reduceElements])"

text \<open>Lines 37-53: the loop over the output indices; an exception leaves the loop with the
  store as it is then.\<close>

fun output_loop ::
  "tensor \<Rightarrow> 'a reducer \<Rightarrow> ref \<Rightarrow> nat list \<Rightarrow> nat \<Rightarrow> tensor \<Rightarrow> nat list \<Rightarrow> 'a store
     \<Rightarrow> (error + unit) \<times> 'a store" where
  "output_loop input reduceFunc inpAxes reduceStrides reduceElements output [] s = (Inr (), s)"
| "output_loop input reduceFunc inpAxes reduceStrides reduceElements output (outputIndex # rest) s =
     (case valuesToReduce_of s input output (arrays s ! inpAxes) reduceStrides reduceElements
             outputIndex of
        Inl e \<Rightarrow> (Inl e, s)
      | Inr valuesToReduce \<Rightarrow>
          (case array_reduce reduceFunc valuesToReduce of
             Inl e \<Rightarrow> (Inl e, s)
           | Inr outputValue \<Rightarrow>
               (case setValueByIndex output outputIndex outputValue s of
                  Inl e \<Rightarrow> (Inl e, s)
                | Inr s' \<Rightarrow>
                    output_loop input reduceFunc inpAxes reduceStrides reduceElements output
                      rest s')))"

text \<open>Lines 26-58, after validation.\<close>

definition reduce_body ::
  "tensor \<Rightarrow> 'a reducer \<Rightarrow> bool \<Rightarrow> ref \<Rightarrow> ref \<Rightarrow> 'a::zero store \<Rightarrow> (error + tensor) \<times> 'a store" where
  "reduce_body input reduceFunc keepDims inpAxes outputShape s =
     (let s1 = sort_in_place inpAxes s;
          reduceDims = map (\<lambda>axis. arrays s1 ! shape input ! axis) (arrays s1 ! inpAxes);
          reduceElements = sizeOfShape reduceDims;
          reduceStrides = reduceStrides_of reduceDims;
          (output, s2) = new_Tensor outputShape s1
      in case output_loop input reduceFunc inpAxes reduceStrides reduceElements output
                [0..<sizeOfShape (arrays s2 ! outputShape)] s2 of
           (Inl e, s3) \<Rightarrow> (Inl e, s3)
         | (Inr _, s3) \<Rightarrow>
             if \<not> keepDims then (case squeeze output s3 of (t, s4) \<Rightarrow> (Inr t, s4))
             else (Inr output, s3))"

text \<open>Lines 19-58, for the axes array \<open>inpAxes\<close> chosen at line 17: the output shape
  (a copy of the input's shape with the reduced axes set to 1), validation, then the body.\<close>

definition reduce_with_axes ::
  "tensor \<Rightarrow> 'a reducer \<Rightarrow> bool \<Rightarrow> ref \<Rightarrow> 'a::zero store \<Rightarrow> (error + tensor) \<times> 'a store" where
  "reduce_with_axes input reduceFunc keepDims inpAxes s =
     (let (outputShape, s1) = new_array (arrays s ! shape input) s;
          s2 = outputShape_loop outputShape inpAxes s1
      in case validateReduceParams s2 input reduceFunc keepDims inpAxes of
           Inl e \<Rightarrow> (Inl e, s2)
         | Inr _ \<Rightarrow> reduce_body input reduceFunc keepDims inpAxes outputShape s2)"

text \<open>Line 17: \<^verbatim>\<open>axes ?? [0, 1, ..., rank - 1]\<close>.  An array the caller passes is used as it
  is; the default is a new array.\<close>

definition reduce ::
  "tensor \<Rightarrow> 'a reducer \<Rightarrow> MLReduceOptions \<Rightarrow> 'a::zero store \<Rightarrow> (error + tensor) \<times> 'a store" where
  "reduce input reduceFunc options s =
     (let (inpAxes, s1) = (case axes options of
                             Some r \<Rightarrow> (r, s)
                           | None \<Rightarrow> new_array [0..<rank s input] s)
      in reduce_with_axes input reduceFunc (keepDimensions options) inpAxes s1)"




subsection \<open>The reducers (src/reduce.js, lines 74-161)\<close>

text \<open>Lines 75-81, \<^verbatim>\<open>meanReducer\<close>; lines 122-123, the callback of \<^verbatim>\<open>reduceSum\<close>, which has no
  name in the source; lines 89-91 and 121-124.\<close>

definition meanReducer :: "real reducer" where
  "meanReducer previousValue currentValue currentIndex array =
     (if int currentIndex = int (length array) - 1
      then (previousValue + currentValue) / real (length array)
      else previousValue + currentValue)"

definition sumReducer :: "real reducer" where
  "sumReducer previousValue currentValue currentIndex array = previousValue + currentValue"

definition reduceMean :: "tensor \<Rightarrow> MLReduceOptions \<Rightarrow> real store \<Rightarrow> (error + tensor) \<times> real store" where
  "reduceMean input options s = reduce input meanReducer options s"

definition reduceSum :: "tensor \<Rightarrow> MLReduceOptions \<Rightarrow> real store \<Rightarrow> (error + tensor) \<times> real store" where
  "reduceSum input options s = reduce input sumReducer options s"

text \<open>
  Modelled from the spec: \<^verbatim>\<open>pow\<close> of \<^verbatim>\<open>binary.js\<close> is not among the sources.  The spec:
  the elementwise collaborators "must expose \<^verbatim>\<open>f(Array[, Array|Scalar]) -> Array\<close>, applied
  elementwise, same shape preserved".  The scalar operand is passed as a number.

  \<^verbatim>\<open>Math.pow\<close> over the reals: an integral exponent is repeated multiplication (or
  division), also on a negative base; a fractional exponent is the real power.  A negative
  base under a fractional exponent is NaN in JavaScript, which the reals do not have; the
  sums of squares whose root \<^verbatim>\<open>reduceL2\<close> takes are never negative.
\<close>

definition Math_pow :: "real \<Rightarrow> real \<Rightarrow> real" where
  "Math_pow x y = (if y = of_int \<lfloor>y\<rfloor> then x powi \<lfloor>y\<rfloor> else x powr y)"

definition pow :: "tensor \<Rightarrow> real \<Rightarrow> real store \<Rightarrow> tensor \<times> real store" where
  "pow a b s =
     (let (r, s1) = new_array (arrays s ! shape a) s
      in (\<lparr>shape = r, data = length (buffers s1)\<rparr>,
          s1\<lparr>buffers := buffers s1 @ [map (\<lambda>x. Math_pow x b) (buffers s1 ! data a)]\<rparr>))"

text \<open>
  Modelled from the spec: \<^verbatim>\<open>new Tensor(shape, data)\<close> and \<^verbatim>\<open>getValueByIndex\<close> of
  \<^verbatim>\<open>lib/tensor.js\<close> are not among the sources.  The spec: "construction from a shape (and
  optionally initial values)"; element access by flat index is the row-major layout's.
\<close>

definition new_Tensor_from :: "nat list \<Rightarrow> 'a list \<Rightarrow> 'a store \<Rightarrow> tensor \<times> 'a store" where
  "new_Tensor_from sh vals s =
     (\<lparr>shape = length (arrays s), data = length (buffers s)\<rparr>,
      s\<lparr>arrays := arrays s @ [sh], buffers := buffers s @ [vals]\<rparr>)"

definition getValueByIndex :: "'a store \<Rightarrow> tensor \<Rightarrow> nat \<Rightarrow> error + 'a" where
  "getValueByIndex s t index =
     (let buf = buffers s ! data t
      in if index < length buf then Inr (buf ! index) else Inl RangeError)"

text \<open>Lines 132-134 and 152-161; the exponent \<^verbatim>\<open>0.5\<close> is \<open>1 / 2\<close>.\<close>

definition reduceSumSquare ::
  "tensor \<Rightarrow> MLReduceOptions \<Rightarrow> real store \<Rightarrow> (error + tensor) \<times> real store" where
  "reduceSumSquare input options s =
     (let (squared, s1) = pow input 2 s in reduceSum squared options s1)"

definition reduceL2 ::
  "tensor \<Rightarrow> MLReduceOptions \<Rightarrow> real store \<Rightarrow> (error + tensor) \<times> real store" where
  "reduceL2 input options s =
     (case reduceSumSquare input options s of
        (Inl e, s1) \<Rightarrow> (Inl e, s1)
      | (Inr intermediateResult, s1) \<Rightarrow>
          if rank s1 intermediateResult = 0
          then (case getValueByIndex s1 intermediateResult 0 of
                  Inl e \<Rightarrow> (Inl e, s1)
                | Inr v \<Rightarrow>
                    (case new_Tensor_from [] [Math_pow v (1 / 2)] s1 of
                       (t, s2) \<Rightarrow> (Inr t, s2)))
          else (case pow intermediateResult (1 / 2) s1 of (t, s2) \<Rightarrow> (Inr t, s2)))"

subsection \<open>Notions of the specification\<close>

text \<open>What a caller observes of a tensor: its shape and its elements in flat order.\<close>

definition shape_of :: "'a store \<Rightarrow> tensor \<Rightarrow> nat list" where
  "shape_of s t = arrays s ! shape t"

definition data_of :: "'a store \<Rightarrow> tensor \<Rightarrow> 'a list" where
  "data_of s t = buffers s ! data t"

text \<open>The array invariant of the spec's data model: the tensor's arrays are allocated and
  "element count = product of shape entries".\<close>

definition tensor_ok :: "'a store \<Rightarrow> tensor \<Rightarrow> bool" where
  "tensor_ok s t \<longleftrightarrow>
     shape t < length (arrays s) \<and> data t < length (buffers s) \<and>
     length (buffers s ! data t) = sizeOfShape (arrays s ! shape t)"

text \<open>The axis set of a call: the caller's array, or all axes when \<^verbatim>\<open>axes\<close> is absent.\<close>

definition axis_set :: "'a store \<Rightarrow> tensor \<Rightarrow> MLReduceOptions \<Rightarrow> nat list" where
  "axis_set s input options =
     (case axes options of Some r \<Rightarrow> arrays s ! r | None \<Rightarrow> [0..<rank s input])"

definition axes_allocated :: "'a store \<Rightarrow> MLReduceOptions \<Rightarrow> bool" where
  "axes_allocated s options \<longleftrightarrow>
     (case axes options of Some r \<Rightarrow> r < length (arrays s) | None \<Rightarrow> True)"


text \<open>A valid call: the axes are in range and distinct, and no reduced axis is empty (on
  the shapes of the spec's data model, whose extents are at least 1, the last holds by
  itself).\<close>

definition validates :: "'a store \<Rightarrow> tensor \<Rightarrow> MLReduceOptions \<Rightarrow> bool" where
  "validates s input options \<longleftrightarrow>
     (let axs = axis_set s input options; sh = shape_of s input
      in (\<forall>axis \<in> set axs. axis < length sh) \<and> distinct axs \<and>
         sizeOfShape (map (\<lambda>axis. sh ! axis) axs) \<noteq> 0)"

text \<open>"S with every axis in A set to 1".\<close>

definition with_ones :: "nat list \<Rightarrow> nat list \<Rightarrow> nat list" where
  "with_ones A S = map (\<lambda>i. if i \<in> set A then 1 else S ! i) [0..<length S]"

text \<open>The mixed-radix stride table: "\<^verbatim>\<open>reduceStrides[last] = 1\<close> and
  \<^verbatim>\<open>reduceStrides[i] = reduceStrides[i+1] * reduceDims[i+1]\<close>".\<close>

definition stride_table :: "nat list \<Rightarrow> nat list \<Rightarrow> bool" where
  "stride_table reduceDims reduceStrides \<longleftrightarrow>
     length reduceStrides = length reduceDims \<and>
     (reduceDims \<noteq> [] \<longrightarrow> last reduceStrides = 1) \<and>
     (\<forall>i \<in> {0..<length reduceDims - 1}.
        reduceStrides ! i = reduceStrides ! (i + 1) * reduceDims ! (i + 1))"

text \<open>
  The location that reduce-index \<open>r\<close> stands for, next to the location of the output
  element: on the \<open>j\<close>-th reduced axis the coordinate is the \<open>j\<close>-th mixed-radix digit of
  \<open>r\<close>, on every other axis it is the output's own coordinate.
\<close>

definition mixed_radix_location ::
  "nat list \<Rightarrow> nat list \<Rightarrow> nat list \<Rightarrow> nat list \<Rightarrow> nat \<Rightarrow> nat list \<Rightarrow> bool" where
  "mixed_radix_location A reduceDims reduceStrides outputLocation r location \<longleftrightarrow>
     length location = length outputLocation \<and>
     (\<forall>j \<in> {0..<length A}. location ! (A ! j) = (r div reduceStrides ! j) mod reduceDims ! j) \<and>
     (\<forall>a \<in> {0..<length outputLocation}. a \<notin> set A \<longrightarrow> location ! a = outputLocation ! a)"

text \<open>The left-to-right fold of a position-aware combining function over a non-empty
  sequence: the first value starts the accumulator.\<close>

definition left_fold :: "'a reducer \<Rightarrow> 'a list \<Rightarrow> 'a" where
  "left_fold f vals = foldl (\<lambda>acc k. f acc (vals ! k) k vals) (vals ! 0) [1..<length vals]"

text \<open>The values gathered for one output index, in ascending reduce-index order, and the
  values of the whole output.\<close>

definition gathered :: "nat list \<Rightarrow> nat list \<Rightarrow> 'a list \<Rightarrow> nat \<Rightarrow> 'a list" where
  "gathered sh axs buf outputIndex =
     (let A = sort axs;
          reduceDims = map (\<lambda>axis. sh ! axis) A;
          reduceStrides = reduceStrides_of reduceDims
      in map (\<lambda>r. buf ! rowMajorIndex sh
                     (inputLocation_of A reduceStrides
                        (rowMajorLocation (with_ones axs sh) outputIndex) r))
           [0..<sizeOfShape reduceDims])"

definition reduced_values :: "'a reducer \<Rightarrow> nat list \<Rightarrow> nat list \<Rightarrow> 'a list \<Rightarrow> 'a list" where
  "reduced_values f sh axs buf =
     map (\<lambda>outputIndex. left_fold f (gathered sh axs buf outputIndex))
       [0..<sizeOfShape (with_ones axs sh)]"

subsection \<open>The test scenario of the spec\<close>

text \<open>
  "Concrete scenario: input shape \<^verbatim>\<open>[2,3]\<close>, values \<^verbatim>\<open>[[1,2,3],[4,5,6]]\<close>".  The store
  holds the input's shape (array 0) and data (buffer 0) and the axes arrays that the
  scenarios pass: \<^verbatim>\<open>[1]\<close>, \<^verbatim>\<open>[0]\<close>, \<^verbatim>\<open>[1,0]\<close>, \<^verbatim>\<open>[]\<close>, \<^verbatim>\<open>[2]\<close>, \<^verbatim>\<open>[0,0]\<close> (arrays 1 to 6).
\<close>

definition scenario_store :: "real store" where
  "scenario_store =
     \<lparr>arrays = [[2, 3], [1], [0], [1, 0], [], [2], [0, 0]], buffers = [[1, 2, 3, 4, 5, 6]]\<rparr>"

definition scenario_input :: tensor where
  "scenario_input = \<lparr>shape = 0, data = 0\<rparr>"

text \<open>
  Three further inputs: shape \<^verbatim>\<open>[2,1,3]\<close> with the axes array \<^verbatim>\<open>[0]\<close> (an axis of
  size 1 that is not reduced), a rank-0 tensor holding 7 with the axes array \<^verbatim>\<open>[]\<close>, and
  the spec's "input \<^verbatim>\<open>[3,4]\<close> (shape \<^verbatim>\<open>[2]\<close>)".  In each, the input is array 0 and buffer 0.
\<close>

definition squeeze_scenario_store :: "real store" where
  "squeeze_scenario_store = \<lparr>arrays = [[2, 1, 3], [0]], buffers = [[1, 2, 3, 4, 5, 6]]\<rparr>"

definition scalar_store :: "real store" where
  "scalar_store = \<lparr>arrays = [[], []], buffers = [[7]]\<rparr>"

definition norm_store :: "real store" where
  "norm_store = \<lparr>arrays = [[2]], buffers = [[3, 4]]\<rparr>"




section \<open>Properties\<close>

subsection \<open>Store operations\<close>

lemma new_array_simps:
  "fst (new_array xs s) = length (arrays s)"
  "arrays (snd (new_array xs s)) = arrays s @ [xs]"
  "buffers (snd (new_array xs s)) = buffers s"
  by (simp_all add: new_array_def)

lemma store_assign_simps:
  "arrays (store_assign r i v s) = (arrays s)[r := array_assign (arrays s ! r) i v]"
  "buffers (store_assign r i v s) = buffers s"
  by (simp_all add: store_assign_def)

lemma sort_in_place_simps:
  "arrays (sort_in_place r s) = (arrays s)[r := sort (arrays s ! r)]"
  "buffers (sort_in_place r s) = buffers s"
  by (simp_all add: sort_in_place_def)

lemma fold_nth_upt:
  "fold (\<lambda>i. f (xs ! i)) [0..<length xs] = fold f xs"
proof -
  have "fold (\<lambda>i. f (xs ! i)) [0..<length xs] = fold f (map (\<lambda>i. xs ! i) [0..<length xs])"
    by (simp add: fold_map comp_def)
  then show ?thesis by (simp add: map_nth)
qed

lemma fold_assign_in_range:
  assumes "\<forall>axis \<in> set A. axis < length S"
  shows "fold (\<lambda>axis xs. array_assign xs axis 1) A S =
         map (\<lambda>i. if i \<in> set A then 1 else S ! i) [0..<length S]"
  using assms
proof (induction A arbitrary: S)
  case Nil
  then show ?case by (simp add: map_nth)
next
  case (Cons a A)
  have len: "length (array_assign S a 1) = length S"
    using Cons.prems by (simp add: array_assign_def)
  have "\<forall>axis\<in>set A. axis < length (array_assign S a 1)"
    using Cons.prems len by simp
  from Cons.IH[OF this] show ?case
    using Cons.prems by (auto simp: len array_assign_def nth_list_update)
qed

lemma length_with_ones [simp]: "length (with_ones A S) = length S"
  by (simp add: with_ones_def)

lemma nth_with_ones: "i < length S \<Longrightarrow> with_ones A S ! i = (if i \<in> set A then 1 else S ! i)"
  by (simp add: with_ones_def)

subsection \<open>The stride table\<close>

lemma prod_drop_Suc:
  "i < length (dims::nat list) \<Longrightarrow> prod_list (drop i dims) = dims ! i * prod_list (drop (Suc i) dims)"
  by (simp add: Cons_nth_drop_Suc[symmetric])

lemma reduceStrides_loop_inv:
  assumes "length rs = length dims" "k < length dims"
    "\<forall>j. k \<le> j \<and> j < length dims \<longrightarrow> rs ! j = prod_list (drop (Suc j) dims)"
  shows "length (reduceStrides_loop dims k rs) = length dims \<and>
         (\<forall>j<length dims. reduceStrides_loop dims k rs ! j = prod_list (drop (Suc j) dims))"
  using assms
proof (induction k arbitrary: rs)
  case 0
  then show ?case by simp
next
  case (Suc i)
  let ?rs = "rs[i := rs ! (i + 1) * dims ! (i + 1)]"
  have l: "length ?rs = length dims" using Suc.prems by simp
  have k: "i < length dims" using Suc.prems by simp
  have "rs ! (i + 1) = prod_list (drop (Suc (Suc i)) dims)" using Suc.prems by simp
  then have i: "?rs ! i = prod_list (drop (Suc i) dims)"
    using Suc.prems prod_drop_Suc[of "Suc i" dims] by (simp add: mult.commute)
  have "\<forall>j. i \<le> j \<and> j < length dims \<longrightarrow> ?rs ! j = prod_list (drop (Suc j) dims)"
  proof (intro allI impI)
    fix j assume j: "i \<le> j \<and> j < length dims"
    show "?rs ! j = prod_list (drop (Suc j) dims)"
    proof (cases "j = i")
      case True
      then show ?thesis using i by simp
    next
      case False
      then have "Suc i \<le> j" using j by simp
      then show ?thesis using Suc.prems(3) j False by simp
    qed
  qed
  from Suc.IH[OF l k this] show ?case by simp
qed

lemma reduceStrides_of_inv:
  assumes "dims \<noteq> []"
  shows "length (reduceStrides_of dims) = length dims \<and>
         (\<forall>j<length dims. reduceStrides_of dims ! j = prod_list (drop (Suc j) dims))"
proof -
  let ?n = "length dims"
  let ?rs = "(replicate ?n (0::nat))[?n - 1 := 1]"
  have n: "0 < ?n" using assms by simp
  have l: "length ?rs = ?n" by simp
  have k: "?n - 1 < ?n" using n by simp
  have "\<forall>j. ?n - 1 \<le> j \<and> j < ?n \<longrightarrow> ?rs ! j = prod_list (drop (Suc j) dims)"
  proof (intro allI impI)
    fix j assume "?n - 1 \<le> j \<and> j < ?n"
    then have "j = ?n - 1" by arith
    then show "?rs ! j = prod_list (drop (Suc j) dims)" using n by simp
  qed
  from reduceStrides_loop_inv[OF l k this] show ?thesis
    by (simp add: reduceStrides_of_def Let_def)
qed

lemma length_reduceStrides_of [simp]: "length (reduceStrides_of dims) = length dims"
proof (cases "dims = []")
  case True
  then show ?thesis by (simp add: reduceStrides_of_def)
next
  case False
  then show ?thesis using reduceStrides_of_inv by blast
qed

lemma nth_reduceStrides_of:
  assumes "j < length dims"
  shows "reduceStrides_of dims ! j = prod_list (drop (Suc j) dims)"
proof -
  have "dims \<noteq> []" using assms by auto
  then show ?thesis using reduceStrides_of_inv assms by blast
qed

lemma less_prod_pos: "(r::nat) < prod_list (drop k dims) \<Longrightarrow> k \<le> j \<Longrightarrow> 0 < prod_list (drop j dims)"
proof (induction "j - k" arbitrary: j)
  case 0
  then show ?case by (cases "prod_list (drop j dims) = 0") auto
next
  case (Suc n)
  then obtain j' where j': "j = Suc j'" "k \<le> j'" "n = j' - k" by (cases j) auto
  from Suc.hyps(1)[OF j'(3) Suc.prems(1) j'(2)] have p: "0 < prod_list (drop j' dims)" .
  show ?case
  proof (cases "j' < length dims")
    case True
    then show ?thesis using p prod_drop_Suc[of j' dims] j' by auto
  next
    case False
    then show ?thesis using j' by simp
  qed
qed

lemma digit_step:
  assumes "0 < (q::nat)"
  shows "(r mod (d * q)) div q = (r div q) mod d"
proof -
  have "r mod (q * d) = q * (r div q mod d) + r mod q" by (rule mod_mult2_eq)
  then show ?thesis using assms by (simp add: mult.commute[of d q])
qed

subsection \<open>Row-major locations\<close>

lemma length_rowMajorLocation [simp]: "length (rowMajorLocation sh i) = length sh"
  by (induction sh arbitrary: i) simp_all

lemma rowMajorLocation_in_range:
  "i < sizeOfShape sh \<Longrightarrow> list_all2 (<) (rowMajorLocation sh i) sh"
proof (induction sh arbitrary: i)
  case Nil
  then show ?case by simp
next
  case (Cons d ds)
  then have i: "i < d * sizeOfShape ds" by (simp add: sizeOfShape_def)
  then have p: "0 < sizeOfShape ds" by (cases "sizeOfShape ds = 0") auto
  have "i div sizeOfShape ds < d" using i p by (simp add: less_mult_imp_div_less)
  moreover have "i mod sizeOfShape ds < sizeOfShape ds" using p by simp
  ultimately show ?case using Cons.IH by simp
qed

lemma rowMajorIndex_less:
  "list_all2 (<) loc sh \<Longrightarrow> rowMajorIndex sh loc < sizeOfShape sh"
proof (induction loc sh rule: list_all2_induct)
  case Nil
  then show ?case by (simp add: sizeOfShape_def)
next
  case (Cons c cs d ds)
  then have c: "c < d" and r: "rowMajorIndex ds cs < sizeOfShape ds" by simp_all
  have "c * sizeOfShape ds + rowMajorIndex ds cs < Suc c * sizeOfShape ds" using r by simp
  also have "\<dots> \<le> d * sizeOfShape ds" using c by (intro mult_le_mono1) simp
  finally show ?case by (simp add: sizeOfShape_def)
qed

lemma rowMajor_roundtrip:
  "i < sizeOfShape sh \<Longrightarrow> rowMajorIndex sh (rowMajorLocation sh i) = i"
proof (induction sh arbitrary: i)
  case Nil
  then show ?case by (simp add: sizeOfShape_def)
next
  case (Cons d ds)
  then have i: "i < d * sizeOfShape ds" by (simp add: sizeOfShape_def)
  then have p: "0 < sizeOfShape ds" by (cases "sizeOfShape ds = 0") auto
  have "rowMajorIndex ds (rowMajorLocation ds (i mod sizeOfShape ds)) = i mod sizeOfShape ds"
    using p by (intro Cons.IH) simp
  then show ?case by simp
qed

lemma nth_rowMajorLocation:
  assumes "i < sizeOfShape sh" "j < length sh"
  shows "rowMajorLocation sh i ! j = (i div prod_list (drop (Suc j) sh)) mod (sh ! j)"
  using assms
proof (induction sh arbitrary: i j)
  case Nil
  then show ?case by simp
next
  case (Cons d ds)
  then have i: "i < d * sizeOfShape ds" by (simp add: sizeOfShape_def)
  then have p: "0 < sizeOfShape ds" by (cases "sizeOfShape ds = 0") auto
  show ?case
  proof (cases j)
    case 0
    have "i div sizeOfShape ds < d" using i p by (simp add: less_mult_imp_div_less)
    then show ?thesis using 0 by (simp add: sizeOfShape_def)
  next
    case (Suc j')
    then have j': "j' < length ds" using Cons.prems by simp
    let ?Q = "prod_list (drop (Suc j') ds)"
    have m: "i mod sizeOfShape ds < sizeOfShape ds" using p by simp
    have split: "sizeOfShape ds = prod_list (take j' ds) * (ds ! j' * ?Q)"
      using j' prod_drop_Suc[of j' ds] prod_list.append[of "take j' ds" "drop j' ds"]
      by (simp add: sizeOfShape_def)
    have Q: "0 < ?Q" using p split by (cases "?Q = 0") auto
    have "(i mod sizeOfShape ds) div ?Q mod (ds ! j') = (i div ?Q) mod (ds ! j')"
    proof -
      have "sizeOfShape ds = (prod_list (take j' ds) * ds ! j') * ?Q" using split by simp
      then have "(i mod sizeOfShape ds) div ?Q = (i div ?Q) mod (prod_list (take j' ds) * ds ! j')"
        using digit_step[OF Q] by simp
      then show ?thesis by (simp add: mod_mod_cancel)
    qed
    then show ?thesis using Cons.IH[OF m j'] Suc by simp
  qed
qed

lemma fold_update_nth:
  assumes "distinct A" "\<forall>a\<in>set A. a < length L" "k \<le> length A"
  shows "length (fold (\<lambda>j loc. loc[A ! j := g j]) [0..<k] L) = length L \<and>
         (\<forall>j<k. fold (\<lambda>j loc. loc[A ! j := g j]) [0..<k] L ! (A ! j) = g j) \<and>
         (\<forall>a. a \<notin> set (take k A) \<longrightarrow> fold (\<lambda>j loc. loc[A ! j := g j]) [0..<k] L ! a = L ! a)"
  using assms(3)
proof (induction k)
  case 0
  then show ?case by simp
next
  case (Suc k)
  let ?F = "fold (\<lambda>j loc. loc[A ! j := g j]) [0..<k] L"
  have IH: "length ?F = length L" "\<forall>j<k. ?F ! (A ! j) = g j"
    "\<forall>a. a \<notin> set (take k A) \<longrightarrow> ?F ! a = L ! a"
    using Suc by simp_all
  have k: "k < length A" using Suc.prems by simp
  have step: "fold (\<lambda>j loc. loc[A ! j := g j]) [0..<Suc k] L = ?F[A ! k := g k]" by simp
  have Ak: "A ! k < length L" using assms(2) k by simp
  have neq: "j < k \<Longrightarrow> A ! j \<noteq> A ! k" for j
    using assms(1) k by (simp add: nth_eq_iff_index_eq)
  have tk: "set (take (Suc k) A) = insert (A ! k) (set (take k A))"
    using k by (simp add: take_Suc_conv_app_nth)
  show ?case
    unfolding step
  proof (intro conjI allI impI)
    show "length (?F[A ! k := g k]) = length L" using IH by simp
  next
    fix j assume "j < Suc k"
    then show "?F[A ! k := g k] ! (A ! j) = g j"
      using IH Ak neq[of j] by (cases "j = k") (simp_all add: nth_list_update)
  next
    fix a assume "a \<notin> set (take (Suc k) A)"
    then show "?F[A ! k := g k] ! a = L ! a"
      using IH tk by (simp add: nth_list_update)
  qed
qed

subsection \<open>Mixed-radix decomposition\<close>

lemma stride_table_reduceStrides_of: "stride_table dims (reduceStrides_of dims)"
proof (cases "dims = []")
  case True
  then show ?thesis by (simp add: stride_table_def)
next
  case False
  then have n: "0 < length dims" by simp
  have "last (reduceStrides_of dims) = reduceStrides_of dims ! (length dims - 1)"
  proof -
    have "reduceStrides_of dims \<noteq> []"
      using False by (metis length_0_conv length_reduceStrides_of)
    then show ?thesis by (simp add: last_conv_nth)
  qed
  also have "\<dots> = 1" using n by (simp add: nth_reduceStrides_of)
  finally have l: "last (reduceStrides_of dims) = 1" .
  have "reduceStrides_of dims ! i = reduceStrides_of dims ! (i + 1) * dims ! (i + 1)"
    if "i < length dims - 1" for i
  proof -
    have "Suc i < length dims" using that by simp
    then show ?thesis
      using prod_drop_Suc[of "Suc i" dims] by (simp add: nth_reduceStrides_of mult.commute)
  qed
  then show ?thesis using l by (simp add: stride_table_def)
qed

lemma length_fold_update [simp]:
  "length (fold (\<lambda>j loc. loc[f j := g j]) js L) = length L"
  by (induction js arbitrary: L) simp_all

lemma inputLocation_fold:
  fixes A dims :: "nat list"
  defines "step \<equiv> (\<lambda>i (inputLocation, remainingReduceIndex).
                  let axis = A ! i;
                      c = remainingReduceIndex div reduceStrides_of dims ! i
                  in (array_assign inputLocation axis c,
                      remainingReduceIndex - c * reduceStrides_of dims ! i))"
  assumes "\<forall>a\<in>set A. a < length outLoc" "r < prod_list dims" "length dims = length A"
    "k \<le> length A"
  shows "fold step [0..<k] (outLoc, r) =
         (fold (\<lambda>j loc. loc[A ! j := (r div reduceStrides_of dims ! j) mod dims ! j]) [0..<k] outLoc,
          r mod prod_list (drop k dims))"
  using assms(5)
proof (induction k)
  case 0
  then show ?case using assms(3) by simp
next
  case (Suc k)
  then have k: "k < length dims" "k < length A" using assms(4) by simp_all
  let ?q = "prod_list (drop (Suc k) dims)"
  let ?loc = "fold (\<lambda>j loc. loc[A ! j := (r div reduceStrides_of dims ! j) mod dims ! j]) [0..<k] outLoc"
  have q: "0 < ?q" using less_prod_pos[of r 0 dims "Suc k"] assms(3) by simp
  have rs: "reduceStrides_of dims ! k = ?q" using k by (simp add: nth_reduceStrides_of)
  have P: "prod_list (drop k dims) = dims ! k * ?q" using k(1) by (rule prod_drop_Suc)
  have c: "(r mod prod_list (drop k dims)) div ?q = (r div ?q) mod dims ! k"
    unfolding P by (rule digit_step[OF q])
  have "r mod prod_list (drop k dims) - (r mod prod_list (drop k dims)) div ?q * ?q
        = (r mod prod_list (drop k dims)) mod ?q"
    by (simp add: minus_div_mult_eq_mod)
  also have "\<dots> = r mod ?q" unfolding P by (simp add: mod_mod_cancel)
  finally have rem: "r mod prod_list (drop k dims) - (r div ?q) mod dims ! k * ?q = r mod ?q"
    using c by simp
  have Ak: "A ! k < length ?loc" using assms(2) k by simp
  have IH: "fold step [0..<k] (outLoc, r) = (?loc, r mod prod_list (drop k dims))"
    using Suc by simp
  have "fold step [0..<Suc k] (outLoc, r) = step k (?loc, r mod prod_list (drop k dims))"
    by (simp add: IH)
  also have "\<dots> = (?loc[A ! k := (r div ?q) mod dims ! k], r mod ?q)"
    using Ak by (simp add: step_def Let_def rs c rem array_assign_def)
  finally show ?case by (simp add: rs)
qed

lemma inputLocation_of_eq:
  assumes "\<forall>a\<in>set A. a < length outLoc" "r < prod_list dims" "length dims = length A"
  shows "inputLocation_of A (reduceStrides_of dims) outLoc r =
         fold (\<lambda>j loc. loc[A ! j := (r div reduceStrides_of dims ! j) mod dims ! j])
           [0..<length A] outLoc"
  unfolding inputLocation_of_def
  using inputLocation_fold[OF assms, of "length A"] by simp

lemma inputLocation_of_mixed_radix:
  assumes "\<forall>a\<in>set A. a < length outLoc" "r < prod_list dims" "length dims = length A"
    "distinct A"
  shows "mixed_radix_location A dims (reduceStrides_of dims) outLoc r
           (inputLocation_of A (reduceStrides_of dims) outLoc r)"
  unfolding inputLocation_of_eq[OF assms(1-3)] mixed_radix_location_def
  using fold_update_nth[OF assms(4) assms(1), of "length A"
      "\<lambda>j. (r div reduceStrides_of dims ! j) mod dims ! j"]
  by simp

subsection \<open>The loops\<close>

lemma array_reduce_left_fold:
  "vals \<noteq> [] \<Longrightarrow> array_reduce f vals = Inr (left_fold f vals)"
  by (cases vals) (simp_all add: array_reduce_def left_fold_def foldl_conv_fold)

lemma collect_map_Inr: "collect (map (\<lambda>r. Inr (g r)) rs) = Inr (map g rs)"
  by (induction rs) simp_all

lemma list_all2_less_nth:
  "list_all2 (<) xs ys \<longleftrightarrow> length xs = length ys \<and> (\<forall>i<length ys. xs ! i < ys ! i)"
  by (auto simp: list_all2_conv_all_nth)

lemma gathered_location_in_range:
  assumes d: "distinct axs" and r: "\<forall>a\<in>set axs. a < length sh"
    and n: "r < sizeOfShape (map (\<lambda>axis. sh ! axis) (sort axs))"
    and o: "outputIndex < sizeOfShape (with_ones axs sh)"
  shows "list_all2 (<)
           (inputLocation_of (sort axs) (reduceStrides_of (map (\<lambda>axis. sh ! axis) (sort axs)))
              (rowMajorLocation (with_ones axs sh) outputIndex) r) sh"
proof -
  let ?A = "sort axs"
  let ?dims = "map (\<lambda>axis. sh ! axis) ?A"
  let ?outLoc = "rowMajorLocation (with_ones axs sh) outputIndex"
  let ?loc = "inputLocation_of ?A (reduceStrides_of ?dims) ?outLoc r"
  have A: "\<forall>a\<in>set ?A. a < length ?outLoc" using r by simp
  have n': "r < prod_list ?dims" using n by (simp add: sizeOfShape_def)
  have mr: "mixed_radix_location ?A ?dims (reduceStrides_of ?dims) ?outLoc r ?loc"
    using inputLocation_of_mixed_radix[OF A n' _ ] d by simp
  have out: "list_all2 (<) ?outLoc (with_ones axs sh)"
    using o by (rule rowMajorLocation_in_range)
  have len: "length ?loc = length sh" using mr by (simp add: mixed_radix_location_def)
  have "?loc ! a < sh ! a" if a: "a < length sh" for a
  proof (cases "a \<in> set axs")
    case True
    then have "a \<in> set ?A" by simp
    then obtain j where j: "j < length ?A" "?A ! j = a" unfolding in_set_conv_nth by blast
    have pos: "0 < ?dims ! j"
    proof -
      have "?dims ! j \<in> set ?dims" using j by (intro nth_mem) simp
      moreover have "0 \<notin> set ?dims" by (metis n' prod_list_zero_iff not_less0)
      ultimately show ?thesis by (cases "?dims ! j = 0") auto
    qed
    have "?loc ! (?A ! j) = (r div reduceStrides_of ?dims ! j) mod ?dims ! j"
      using mr j(1) by (simp add: mixed_radix_location_def)
    also have "\<dots> < ?dims ! j" using pos by simp
    finally show ?thesis using j by simp
  next
    case False
    then have "?loc ! a = ?outLoc ! a" using mr a by (simp add: mixed_radix_location_def)
    also have "\<dots> < with_ones axs sh ! a" using out a by (simp add: list_all2_less_nth)
    also have "\<dots> = sh ! a" using False a by (simp add: nth_with_ones)
    finally show ?thesis .
  qed
  then show ?thesis using len by (simp add: list_all2_less_nth)
qed

lemma valuesToReduce_of_ok:
  assumes sh: "arrays s ! shape input = sh" and osh: "arrays s ! shape output = with_ones axs sh"
    and buf: "buffers s ! data input = buf" and wf: "length buf = sizeOfShape sh"
    and d: "distinct axs" and r: "\<forall>a\<in>set axs. a < length sh"
    and o: "outputIndex < sizeOfShape (with_ones axs sh)"
  shows "valuesToReduce_of s input output (sort axs)
           (reduceStrides_of (map (\<lambda>axis. sh ! axis) (sort axs)))
           (sizeOfShape (map (\<lambda>axis. sh ! axis) (sort axs))) outputIndex =
         Inr (gathered sh axs buf outputIndex)"
proof -
  let ?A = "sort axs"
  let ?dims = "map (\<lambda>axis. sh ! axis) ?A"
  let ?outLoc = "rowMajorLocation (with_ones axs sh) outputIndex"
  let ?g = "\<lambda>r. buf ! rowMajorIndex sh (inputLocation_of ?A (reduceStrides_of ?dims) ?outLoc r)"
  have l: "locationFromIndex s output outputIndex = Inr ?outLoc"
    using o by (simp add: locationFromIndex_def osh)
  have "(case locationFromIndex s output outputIndex of
           Inl e \<Rightarrow> Inl e
         | Inr outputLocation \<Rightarrow>
             getValueByLocation s input
               (inputLocation_of ?A (reduceStrides_of ?dims) outputLocation r)) = Inr (?g r)"
    if "r \<in> set [0..<sizeOfShape ?dims]" for r
  proof -
    have n: "r < sizeOfShape ?dims" using that by simp
    have in_range: "list_all2 (<) (inputLocation_of ?A (reduceStrides_of ?dims) ?outLoc r) sh"
      using gathered_location_in_range[OF d r n o] .
    then have "rowMajorIndex sh (inputLocation_of ?A (reduceStrides_of ?dims) ?outLoc r) < length buf"
      using rowMajorIndex_less wf by simp
    then show ?thesis using in_range by (simp add: l getValueByLocation_def sh buf)
  qed
  then have "map (\<lambda>r. case locationFromIndex s output outputIndex of
           Inl e \<Rightarrow> Inl e
         | Inr outputLocation \<Rightarrow>
             getValueByLocation s input
               (inputLocation_of ?A (reduceStrides_of ?dims) outputLocation r)) [0..<sizeOfShape ?dims]
        = map (\<lambda>r. Inr (?g r)) [0..<sizeOfShape ?dims]"
    by (intro map_cong refl)
  then show ?thesis
    unfolding valuesToReduce_of_def gathered_def Let_def by (simp only: collect_map_Inr)
qed

lemma length_gathered:
  "length (gathered sh axs buf outputIndex) = sizeOfShape (map (\<lambda>axis. sh ! axis) (sort axs))"
  by (simp add: gathered_def Let_def)

lemma valuesToReduce_of_frame:
  assumes "arrays s' = arrays s" "buffers s' ! data input = buffers s ! data input"
  shows "valuesToReduce_of s' input output A rs n outputIndex =
         valuesToReduce_of s input output A rs n outputIndex"
  unfolding valuesToReduce_of_def locationFromIndex_def getValueByLocation_def assms ..

lemma output_loop_ok:
  assumes "data output \<noteq> data input" "data output < length (buffers s)"
    "\<forall>outputIndex\<in>set os. outputIndex < length (buffers s ! data output)"
    "\<forall>outputIndex\<in>set os.
       valuesToReduce_of s input output (arrays s ! a) rs n outputIndex = Inr (vals outputIndex)"
    "\<forall>outputIndex\<in>set os. vals outputIndex \<noteq> []"
  shows "output_loop input f a rs n output os s =
         (Inr (), s\<lparr>buffers := (buffers s)[data output :=
                     fold (\<lambda>outputIndex b. b[outputIndex := left_fold f (vals outputIndex)]) os
                       (buffers s ! data output)]\<rparr>)"
  using assms(2-5)
proof (induction os arbitrary: s)
  case Nil
  then show ?case by simp
next
  case (Cons outputIndex os)
  let ?v = "left_fold f (vals outputIndex)"
  let ?buf = "buffers s ! data output"
  let ?s = "s\<lparr>buffers := (buffers s)[data output := ?buf[outputIndex := ?v]]\<rparr>"
  have v: "valuesToReduce_of s input output (arrays s ! a) rs n outputIndex = Inr (vals outputIndex)"
    using Cons.prems by simp
  have ar: "array_reduce f (vals outputIndex) = Inr ?v"
    using Cons.prems by (intro array_reduce_left_fold) simp
  have st: "setValueByIndex output outputIndex ?v s = Inr ?s"
    using Cons.prems by (simp add: setValueByIndex_def)
  have 1: "data output < length (buffers ?s)" using Cons.prems by simp
  have b: "buffers ?s ! data output = ?buf[outputIndex := ?v]" using Cons.prems by simp
  have 2: "\<forall>k\<in>set os. k < length (buffers ?s ! data output)"
    using Cons.prems by (simp add: b)
  have ar_eq: "arrays ?s = arrays s" by simp
  have fr: "valuesToReduce_of ?s input output (arrays ?s ! a) rs n k =
            valuesToReduce_of s input output (arrays s ! a) rs n k" for k
    unfolding ar_eq by (rule valuesToReduce_of_frame) (use assms(1) in simp_all)
  have 3: "\<forall>k\<in>set os. valuesToReduce_of ?s input output (arrays ?s ! a) rs n k = Inr (vals k)"
    using Cons.prems(3) by (simp only: fr) simp
  have 4: "\<forall>k\<in>set os. vals k \<noteq> []" using Cons.prems by simp
  have "output_loop input f a rs n output (outputIndex # os) s =
        output_loop input f a rs n output os ?s"
    by (simp add: v ar st)
  also have "\<dots> = (Inr (), ?s\<lparr>buffers := (buffers ?s)[data output :=
                     fold (\<lambda>outputIndex b. b[outputIndex := left_fold f (vals outputIndex)]) os
                       (buffers ?s ! data output)]\<rparr>)"
    by (rule Cons.IH[OF 1 2 3 4])
  finally show ?case using Cons.prems(1) by simp
qed

lemma fold_update_upt:
  "k \<le> length b \<Longrightarrow> fold (\<lambda>i b. b[i := g i]) [0..<k] b = map g [0..<k] @ drop k b"
proof (induction k)
  case 0
  then show ?case by simp
next
  case (Suc k)
  then have k: "k < length b" by simp
  have "fold (\<lambda>i b. b[i := g i]) [0..<Suc k] b = (map g [0..<k] @ drop k b)[k := g k]"
    using Suc by simp
  also have "\<dots> = map g [0..<k] @ (drop k b)[0 := g k]"
    by (simp add: list_update_append)
  also have "(drop k b)[0 := g k] = g k # drop (Suc k) b"
    using k by (simp add: Cons_nth_drop_Suc[symmetric])
  finally show ?case by simp
qed

subsection \<open>The body of reduce\<close>

lemma valid_alias_nil:
  assumes "distinct sh" "\<forall>x\<in>set sh. x < length sh" "prod_list (map (\<lambda>axis. sh ! axis) sh) \<noteq> 0"
  shows "sh = []"
proof (rule ccontr)
  assume ne: "sh \<noteq> []"
  have sub: "set sh \<subseteq> {..<length sh}" using assms(2) by auto
  have "card (set sh) = card {..<length sh}" using assms(1) by (simp add: distinct_card)
  then have eq: "set sh = {..<length sh}" using sub by (intro card_subset_eq) simp_all
  have "0 \<in> set sh" using ne eq by simp
  then obtain p where p: "p < length sh" "sh ! p = 0" unfolding in_set_conv_nth by blast
  then have "p \<in> set sh" using eq by simp
  then have "sh ! p \<in> set (map (\<lambda>axis. sh ! axis) sh)" by simp
  then have "0 \<in> set (map (\<lambda>axis. sh ! axis) sh)" using p by simp
  then have "prod_list (map (\<lambda>axis. sh ! axis) sh) = 0" by (simp only: prod_list_zero_iff)
  then show False using assms(3) by simp
qed

lemma sorted_dims_nonzero:
  "sizeOfShape (map (\<lambda>axis. sh ! axis) (sort axs)) \<noteq> 0 \<longleftrightarrow>
   sizeOfShape (map (\<lambda>axis. sh ! axis) axs) \<noteq> 0"
  by (simp add: sizeOfShape_def prod_list_zero_iff)

lemma reduce_body_ok:
  fixes s :: "'a::zero store"
  assumes sh: "arrays s ! shape input = sh" and buf: "buffers s ! data input = buf"
    and al: "shape input < length (arrays s)" "data input < length (buffers s)"
    and wf: "length buf = sizeOfShape sh"
    and a: "a < length (arrays s)" "arrays s ! a = axs"
    and out: "out < length (arrays s)" "out \<noteq> a" "out \<noteq> shape input"
      "arrays s ! out = with_ones axs sh"
    and d: "distinct axs" and r: "\<forall>ax\<in>set axs. ax < length sh"
    and nz: "sizeOfShape (map (\<lambda>axis. sh ! axis) axs) \<noteq> 0"
  shows "reduce_body input f keep a out s =
         (Inr \<lparr>shape = (if keep then out else length (arrays s)), data = length (buffers s)\<rparr>,
          s\<lparr>arrays := (arrays s)[a := sort axs] @
                        (if keep then [] else [filter (\<lambda>d. d \<noteq> 1) (with_ones axs sh)]),
            buffers := buffers s @ [reduced_values f sh axs buf]\<rparr>)"
proof -
  let ?osh = "with_ones axs sh"
  let ?N = "sizeOfShape ?osh"
  let ?A = "sort axs"
  let ?dims = "map (\<lambda>axis. sh ! axis) ?A"
  let ?s1 = "sort_in_place a s"
  let ?output = "\<lparr>shape = out, data = length (buffers s)\<rparr>"
  let ?s2 = "?s1\<lparr>buffers := buffers ?s1 @ [replicate ?N 0]\<rparr>"
  have s1a: "arrays ?s1 ! a = ?A" using a by (simp add: sort_in_place_simps)
  have s1o: "arrays ?s1 ! out = ?osh" using out by (simp add: sort_in_place_simps)
  have s1s: "arrays ?s1 ! shape input = sh"
  proof (cases "a = shape input")
    case True
    then have "axs = sh" using a sh by simp
    then have "sh = []" using valid_alias_nil[of sh] d r nz by (simp add: sizeOfShape_def)
    then show ?thesis using True a sh by (simp add: sort_in_place_simps)
  next
    case False
    then show ?thesis using sh by (simp add: sort_in_place_simps)
  qed
  have nt: "new_Tensor out ?s1 = (?output, ?s2)"
    unfolding new_Tensor_def s1o by (simp add: sort_in_place_simps)
  have s2a: "arrays ?s2 = arrays ?s1" by simp
  have vals: "\<forall>outputIndex\<in>set [0..<?N].
       valuesToReduce_of ?s2 input ?output (arrays ?s2 ! a) (reduceStrides_of ?dims)
         (sizeOfShape ?dims) outputIndex = Inr (gathered sh axs buf outputIndex)"
  proof
    fix outputIndex assume "outputIndex \<in> set [0..<?N]"
    then have o: "outputIndex < ?N" by simp
    have 1: "arrays ?s2 ! shape input = sh" using s1s by simp
    have 2: "arrays ?s2 ! shape ?output = ?osh" using s1o by simp
    have 3: "buffers ?s2 ! data input = buf"
      using al buf by (simp add: sort_in_place_simps nth_append)
    show "valuesToReduce_of ?s2 input ?output (arrays ?s2 ! a) (reduceStrides_of ?dims)
         (sizeOfShape ?dims) outputIndex = Inr (gathered sh axs buf outputIndex)"
      unfolding s2a s1a by (rule valuesToReduce_of_ok[OF 1 2 3 wf d r o])
  qed
  have ne: "\<forall>outputIndex\<in>set [0..<?N]. gathered sh axs buf outputIndex \<noteq> []"
  proof
    fix outputIndex
    have "length (gathered sh axs buf outputIndex) \<noteq> 0"
      unfolding length_gathered sorted_dims_nonzero by (rule nz)
    then show "gathered sh axs buf outputIndex \<noteq> []" by auto
  qed
  have b2: "buffers ?s2 ! data ?output = replicate ?N 0"
    by (simp add: sort_in_place_simps)
  have loop: "output_loop input f a (reduceStrides_of ?dims) (sizeOfShape ?dims) ?output [0..<?N] ?s2 =
        (Inr (), ?s2\<lparr>buffers := (buffers ?s2)[data ?output :=
            fold (\<lambda>outputIndex b. b[outputIndex := left_fold f (gathered sh axs buf outputIndex)])
              [0..<?N] (buffers ?s2 ! data ?output)]\<rparr>)"
  proof (rule output_loop_ok)
    show "data ?output \<noteq> data input" using al by simp
    show "data ?output < length (buffers ?s2)" by (simp add: sort_in_place_simps)
    show "\<forall>outputIndex\<in>set [0..<?N]. outputIndex < length (buffers ?s2 ! data ?output)"
      unfolding b2 by simp
    show "\<forall>outputIndex\<in>set [0..<?N].
       valuesToReduce_of ?s2 input ?output (arrays ?s2 ! a) (reduceStrides_of ?dims)
         (sizeOfShape ?dims) outputIndex = Inr (gathered sh axs buf outputIndex)"
      by (rule vals)
    show "\<forall>outputIndex\<in>set [0..<?N]. gathered sh axs buf outputIndex \<noteq> []" by (rule ne)
  qed
  have fin: "fold (\<lambda>outputIndex b. b[outputIndex := left_fold f (gathered sh axs buf outputIndex)])
              [0..<?N] (replicate ?N (0::'a)) = reduced_values f sh axs buf"
    using fold_update_upt[of ?N "replicate ?N (0::'a)"
        "\<lambda>outputIndex. left_fold f (gathered sh axs buf outputIndex)"]
    by (simp add: reduced_values_def)
  let ?s3 = "s\<lparr>arrays := (arrays s)[a := ?A], buffers := buffers s @ [reduced_values f sh axs buf]\<rparr>"
  have loop': "output_loop input f a (reduceStrides_of ?dims) (sizeOfShape ?dims) ?output [0..<?N] ?s2 =
        (Inr (), ?s3)"
    unfolding loop b2 fin using a by (simp add: sort_in_place_def)
  have body: "reduce_body input f keep a out s =
     (if \<not> keep then (case squeeze ?output ?s3 of (t, s4) \<Rightarrow> (Inr t, s4)) else (Inr ?output, ?s3))"
    unfolding reduce_body_def Let_def s1a s1s nt
    using loop' s1o by (simp add: sort_in_place_simps)
  have o3: "arrays ?s3 ! out = ?osh" using out a by simp
  show ?thesis
    unfolding body using o3 by (simp add: squeeze_def new_array_def)
qed

subsection \<open>reduce on valid and invalid axes\<close>

lemma outputShape_fold_eq:
  fixes s :: "'a store"
  assumes "out \<noteq> a" "out < length (arrays s)" "arrays s ! a = axs"
  shows "fold (\<lambda>i st. store_assign out (arrays st ! a ! i) 1 st) js s =
         s\<lparr>arrays := (arrays s)[out := fold (\<lambda>i xs. array_assign xs (axs ! i) 1) js (arrays s ! out)]\<rparr>"
  using assms
proof (induction js arbitrary: s)
  case Nil
  then show ?case by simp
next
  case (Cons j js)
  let ?s = "store_assign out (arrays s ! a ! j) 1 s"
  have a: "arrays ?s ! a = axs"
    using Cons.prems by (simp add: store_assign_simps)
  have o: "arrays ?s ! out = array_assign (arrays s ! out) (axs ! j) 1"
    using Cons.prems by (simp add: store_assign_simps)
  have l: "out < length (arrays ?s)" using Cons.prems by (simp add: store_assign_simps)
  have u: "?s\<lparr>arrays := (arrays ?s)[out := ys]\<rparr> = s\<lparr>arrays := (arrays s)[out := ys]\<rparr>" for ys
    by (simp add: store_assign_def)
  have "fold (\<lambda>i st. store_assign out (arrays st ! a ! i) 1 st) js ?s =
        s\<lparr>arrays := (arrays s)[out := fold (\<lambda>i xs. array_assign xs (axs ! i) 1) js
                             (array_assign (arrays s ! out) (axs ! j) 1)]\<rparr>"
    unfolding Cons.IH[OF Cons.prems(1) l a] o u ..
  then show ?case by simp
qed

lemma outputShape_loop_eq:
  fixes s :: "'a store"
  assumes "out \<noteq> a" "out < length (arrays s)"
  shows "outputShape_loop out a s =
         s\<lparr>arrays := (arrays s)[out := fold (\<lambda>axis xs. array_assign xs axis 1) (arrays s ! a) (arrays s ! out)]\<rparr>"
  unfolding outputShape_loop_def outputShape_fold_eq[OF assms refl]
  using fold_nth_upt[of "\<lambda>axis xs. array_assign xs axis 1" "arrays s ! a"] by simp

lemma validateReduceParams_frame:
  assumes "arrays s' ! a = arrays s ! a" "arrays s' ! shape input = arrays s ! shape input"
  shows "validateReduceParams s' input f keep a = validateReduceParams s input f keep a"
  unfolding validateReduceParams_def rank_def assms ..

lemma validateReduceParams_ok_iff:
  "validateReduceParams s input f keep a = Inr () \<longleftrightarrow>
     (\<forall>axis\<in>set (arrays s ! a). axis < length (arrays s ! shape input)) \<and>
     distinct (arrays s ! a) \<and>
     sizeOfShape (map (\<lambda>axis. arrays s ! shape input ! axis) (arrays s ! a)) \<noteq> 0"
  by (simp add: validateReduceParams_def rank_def Let_def list_all_iff)

lemma validateReduceParams_ShapeError_iff:
  "validateReduceParams s input f keep a = Inl ShapeError \<longleftrightarrow>
     (\<exists>axis\<in>set (arrays s ! a). \<not> axis < length (arrays s ! shape input)) \<or>
     \<not> distinct (arrays s ! a)"
  by (auto simp: validateReduceParams_def rank_def Let_def list_all_iff)

lemma reduce_with_axes_unfold:
  fixes s :: "'a::zero store"
  assumes "a < length (arrays s)" "shape input < length (arrays s)"
  shows "reduce_with_axes input f keep a s =
         (case validateReduceParams s input f keep a of
            Inl e \<Rightarrow> (Inl e, s\<lparr>arrays := arrays s @
                [fold (\<lambda>axis xs. array_assign xs axis 1) (arrays s ! a) (arrays s ! shape input)]\<rparr>)
          | Inr _ \<Rightarrow> reduce_body input f keep a (length (arrays s))
               (s\<lparr>arrays := arrays s @
                [fold (\<lambda>axis xs. array_assign xs axis 1) (arrays s ! a) (arrays s ! shape input)]\<rparr>))"
proof -
  let ?out = "length (arrays s)"
  let ?s1 = "s\<lparr>arrays := arrays s @ [arrays s ! shape input]\<rparr>"
  let ?s2 = "s\<lparr>arrays := arrays s @
                [fold (\<lambda>axis xs. array_assign xs axis 1) (arrays s ! a) (arrays s ! shape input)]\<rparr>"
  have na: "new_array (arrays s ! shape input) s = (?out, ?s1)" by (simp add: new_array_def)
  have "outputShape_loop ?out a ?s1 =
        ?s1\<lparr>arrays := (arrays ?s1)[?out := fold (\<lambda>axis xs. array_assign xs axis 1)
               (arrays ?s1 ! a) (arrays ?s1 ! ?out)]\<rparr>"
    using assms by (intro outputShape_loop_eq) simp_all
  also have "\<dots> = ?s2" using assms by (simp add: nth_append)
  finally have ol: "outputShape_loop ?out a ?s1 = ?s2" .
  have v: "validateReduceParams ?s2 input f keep a = validateReduceParams s input f keep a"
    using assms by (intro validateReduceParams_frame) (simp_all add: nth_append)
  show ?thesis
    unfolding reduce_with_axes_def na Let_def prod.case ol v ..
qed

lemma reduce_with_axes_ok:
  fixes s :: "'a::zero store"
  assumes sh: "arrays s ! shape input = sh" and buf: "buffers s ! data input = buf"
    and al: "shape input < length (arrays s)" "data input < length (buffers s)"
    and wf: "length buf = sizeOfShape sh"
    and a: "a < length (arrays s)" "arrays s ! a = axs"
    and d: "distinct axs" and r: "\<forall>ax\<in>set axs. ax < length sh"
    and nz: "sizeOfShape (map (\<lambda>axis. sh ! axis) axs) \<noteq> 0"
  shows "reduce_with_axes input f keep a s =
         (Inr \<lparr>shape = (if keep then length (arrays s) else Suc (length (arrays s))),
               data = length (buffers s)\<rparr>,
          s\<lparr>arrays := (arrays s)[a := sort axs] @ [with_ones axs sh] @
                        (if keep then [] else [filter (\<lambda>d. d \<noteq> 1) (with_ones axs sh)]),
            buffers := buffers s @ [reduced_values f sh axs buf]\<rparr>)"
proof -
  let ?out = "length (arrays s)"
  let ?osh = "with_ones axs sh"
  let ?s2 = "s\<lparr>arrays := arrays s @ [?osh]\<rparr>"
  have osh: "fold (\<lambda>axis xs. array_assign xs axis 1) (arrays s ! a) (arrays s ! shape input) = ?osh"
    unfolding a sh with_ones_def using r by (rule fold_assign_in_range)
  have v: "validateReduceParams s input f keep a = Inr ()"
    unfolding validateReduceParams_ok_iff a sh using d r nz by simp
  have step: "reduce_with_axes input f keep a s = reduce_body input f keep a ?out ?s2"
    unfolding reduce_with_axes_unfold[OF a(1) al(1)] osh v by simp
  have "reduce_body input f keep a ?out ?s2 =
         (Inr \<lparr>shape = (if keep then ?out else length (arrays ?s2)), data = length (buffers ?s2)\<rparr>,
          ?s2\<lparr>arrays := (arrays ?s2)[a := sort axs] @
                        (if keep then [] else [filter (\<lambda>d. d \<noteq> 1) ?osh]),
            buffers := buffers ?s2 @ [reduced_values f sh axs buf]\<rparr>)"
  proof (rule reduce_body_ok)
    show "arrays ?s2 ! shape input = sh" using al sh by (simp add: nth_append)
    show "buffers ?s2 ! data input = buf" using buf by simp
    show "shape input < length (arrays ?s2)" using al by simp
    show "data input < length (buffers ?s2)" using al by simp
    show "length buf = sizeOfShape sh" by (rule wf)
    show "a < length (arrays ?s2)" using a by simp
    show "arrays ?s2 ! a = axs" using a by (simp add: nth_append)
    show "?out < length (arrays ?s2)" by simp
    show "?out \<noteq> a" using a by simp
    show "?out \<noteq> shape input" using al by simp
    show "arrays ?s2 ! ?out = ?osh" by simp
    show "distinct axs" by (rule d)
    show "\<forall>ax\<in>set axs. ax < length sh" by (rule r)
    show "sizeOfShape (map (\<lambda>axis. sh ! axis) axs) \<noteq> 0" by (rule nz)
  qed
  then show ?thesis unfolding step using a by (simp add: list_update_append)
qed

subsection \<open>The result of a valid call\<close>

lemma reduce_ok:
  fixes s :: "'a::zero store"
  assumes t: "tensor_ok s input" and al: "axes_allocated s options" and v: "validates s input options"
  shows "reduce input f options s =
         (let sh = shape_of s input; axs = axis_set s input options;
              arrs = (case axes options of
                        Some r \<Rightarrow> (arrays s)[r := sort axs]
                      | None \<Rightarrow> arrays s @ [axs])
          in (Inr \<lparr>shape = (if keepDimensions options then length arrs else Suc (length arrs)),
                   data = length (buffers s)\<rparr>,
              s\<lparr>arrays := arrs @ [with_ones axs sh] @
                     (if keepDimensions options then []
                      else [filter (\<lambda>d. d \<noteq> 1) (with_ones axs sh)]),
                buffers := buffers s @ [reduced_values f sh axs (data_of s input)]\<rparr>))"
proof (cases "axes options")
  case (Some r)
  have a: "r < length (arrays s)" using al Some by (simp add: axes_allocated_def)
  have axs: "axis_set s input options = arrays s ! r" using Some by (simp add: axis_set_def)
  have "reduce input f options s = reduce_with_axes input f (keepDimensions options) r s"
    using Some by (simp add: reduce_def)
  also have "\<dots> = (Inr \<lparr>shape = (if keepDimensions options then length (arrays s) else Suc (length (arrays s))),
               data = length (buffers s)\<rparr>,
          s\<lparr>arrays := (arrays s)[r := sort (arrays s ! r)] @ [with_ones (arrays s ! r) (shape_of s input)] @
                        (if keepDimensions options then [] else [filter (\<lambda>d. d \<noteq> 1) (with_ones (arrays s ! r) (shape_of s input))]),
            buffers := buffers s @ [reduced_values f (shape_of s input) (arrays s ! r) (data_of s input)]\<rparr>)"
    using t v a axs
    by (intro reduce_with_axes_ok) (simp_all add: tensor_ok_def validates_def shape_of_def data_of_def Let_def)
  finally show ?thesis using Some axs by (simp add: Let_def)
next
  case None
  let ?R = "rank s input"
  let ?s1 = "s\<lparr>arrays := arrays s @ [[0..<?R]]\<rparr>"
  have axs: "axis_set s input options = [0..<?R]" using None by (simp add: axis_set_def)
  have "reduce input f options s = reduce_with_axes input f (keepDimensions options) (length (arrays s)) ?s1"
    using None by (simp add: reduce_def new_array_def)
  also have "\<dots> = (Inr \<lparr>shape = (if keepDimensions options then length (arrays ?s1) else Suc (length (arrays ?s1))),
               data = length (buffers ?s1)\<rparr>,
          ?s1\<lparr>arrays := (arrays ?s1)[length (arrays s) := sort [0..<?R]] @ [with_ones [0..<?R] (shape_of s input)] @
                        (if keepDimensions options then [] else [filter (\<lambda>d. d \<noteq> 1) (with_ones [0..<?R] (shape_of s input))]),
            buffers := buffers ?s1 @ [reduced_values f (shape_of s input) [0..<?R] (data_of s input)]\<rparr>)"
    using t v axs
    by (intro reduce_with_axes_ok) (simp_all add: tensor_ok_def validates_def shape_of_def data_of_def Let_def nth_append)
  finally show ?thesis using None axs by (simp add: Let_def sorted_sort_id)
qed

lemma with_ones_sort [simp]: "with_ones (sort A) S = with_ones A S"
  by (simp add: with_ones_def)

lemma validates_parts:
  assumes "validates s input options"
  shows "\<forall>axis\<in>set (axis_set s input options). axis < length (shape_of s input)"
    "distinct (axis_set s input options)"
    "sizeOfShape (map (\<lambda>axis. shape_of s input ! axis) (axis_set s input options)) \<noteq> 0"
  using assms by (simp_all add: validates_def Let_def)

lemma nth_gathered:
  assumes "r < sizeOfShape (map (\<lambda>axis. sh ! axis) (sort axs))"
  shows "gathered sh axs buf outputIndex ! r =
         buf ! rowMajorIndex sh
           (inputLocation_of (sort axs) (reduceStrides_of (map (\<lambda>axis. sh ! axis) (sort axs)))
              (rowMajorLocation (with_ones axs sh) outputIndex) r)"
  using assms by (simp add: gathered_def Let_def)

lemma nth_reduced_values:
  assumes "outputIndex < sizeOfShape (with_ones axs sh)"
  shows "reduced_values f sh axs buf ! outputIndex = left_fold f (gathered sh axs buf outputIndex)"
  using assms by (simp add: reduced_values_def)

lemma length_reduced_values [simp]:
  "length (reduced_values f sh axs buf) = sizeOfShape (with_ones axs sh)"
  by (simp add: reduced_values_def)

lemma getValueByLocation_in_range:
  assumes "tensor_ok s t" "list_all2 (<) location (shape_of s t)"
  shows "getValueByLocation s t location =
         Inr (data_of s t ! rowMajorIndex (shape_of s t) location)"
proof -
  have "rowMajorIndex (shape_of s t) location < sizeOfShape (shape_of s t)"
    using assms(2) by (rule rowMajorIndex_less)
  then show ?thesis
    using assms by (simp add: getValueByLocation_def tensor_ok_def shape_of_def data_of_def Let_def)
qed

lemma reduce_observed:
  fixes s :: "'a::zero store"
  assumes t: "tensor_ok s input" and al: "axes_allocated s options" and v: "validates s input options"
  shows "\<exists>out s'. reduce input f options s = (Inr out, s') \<and>
           shape_of s' out =
             (if keepDimensions options then with_ones (axis_set s input options) (shape_of s input)
              else filter (\<lambda>d. d \<noteq> 1) (with_ones (axis_set s input options) (shape_of s input))) \<and>
           data_of s' out =
             reduced_values f (shape_of s input) (axis_set s input options) (data_of s input)"
proof -
  let ?axs = "axis_set s input options"
  let ?sh = "shape_of s input"
  let ?arrs = "case axes options of Some r \<Rightarrow> (arrays s)[r := sort ?axs] | None \<Rightarrow> arrays s @ [?axs]"
  let ?out = "\<lparr>shape = (if keepDimensions options then length ?arrs else Suc (length ?arrs)),
                 data = length (buffers s)\<rparr>"
  let ?s' = "s\<lparr>arrays := ?arrs @ [with_ones ?axs ?sh] @
                     (if keepDimensions options then []
                      else [filter (\<lambda>d. d \<noteq> 1) (with_ones ?axs ?sh)]),
                buffers := buffers s @ [reduced_values f ?sh ?axs (data_of s input)]\<rparr>"
  have r: "reduce input f options s = (Inr ?out, ?s')"
    using reduce_ok[OF t al v, of f] by (simp add: Let_def)
  have 1: "shape_of ?s' ?out =
             (if keepDimensions options then with_ones ?axs ?sh
              else filter (\<lambda>d. d \<noteq> 1) (with_ones ?axs ?sh))"
    by (simp add: shape_of_def nth_append)
  have 2: "data_of ?s' ?out = reduced_values f ?sh ?axs (data_of s input)"
    by (simp add: data_of_def)
  show ?thesis using r 1 2 by blast
qed

subsection \<open>Squeezing, empty axes\<close>

lemma with_ones_Nil [simp]: "with_ones [] S = S"
  by (simp add: with_ones_def map_nth)

lemma squeeze_with_ones:
  "filter (\<lambda>d. d \<noteq> 1) (with_ones A S) =
   map (\<lambda>i. S ! i) (filter (\<lambda>i. i \<notin> set A \<and> S ! i \<noteq> 1) [0..<length S])"
proof -
  have "filter (\<lambda>d. d \<noteq> 1) (with_ones A S) =
        map (\<lambda>i. if i \<in> set A then 1 else S ! i)
          (filter (\<lambda>i. i \<notin> set A \<and> S ! i \<noteq> 1) [0..<length S])"
    by (simp add: with_ones_def filter_map comp_def cong: conj_cong)
  also have "\<dots> = map (\<lambda>i. S ! i) (filter (\<lambda>i. i \<notin> set A \<and> S ! i \<noteq> 1) [0..<length S])"
    by (rule map_cong) auto
  finally show ?thesis .
qed

lemma left_fold_single [simp]: "left_fold f [x] = x"
  by (simp add: left_fold_def)

lemma inputLocation_of_Nil [simp]: "inputLocation_of [] rs loc r = loc"
  by (simp add: inputLocation_of_def)

lemma reduced_values_no_axes:
  assumes "length buf = sizeOfShape sh"
  shows "reduced_values f sh [] buf = buf"
proof -
  have "gathered sh [] buf outputIndex = [buf ! outputIndex]"
    if "outputIndex < sizeOfShape sh" for outputIndex
    using that by (simp add: gathered_def sizeOfShape_def rowMajor_roundtrip)
  then have "reduced_values f sh [] buf = map (\<lambda>outputIndex. buf ! outputIndex) [0..<sizeOfShape sh]"
    by (simp add: reduced_values_def)
  then show ?thesis using assms[symmetric] by (simp add: map_nth)
qed

subsection \<open>Sum and mean as folds\<close>

lemma foldl_nth_tail:
  "foldl (\<lambda>acc k. g acc ((x # xs) ! k)) a [1..<Suc (length xs)] = foldl g a xs"
proof -
  have "[1..<Suc (length xs)] = map Suc [0..<length xs]" by (simp add: map_Suc_upt)
  then have "foldl (\<lambda>acc k. g acc ((x # xs) ! k)) a [1..<Suc (length xs)] =
        foldl g a (map (\<lambda>k. xs ! k) [0..<length xs])"
    by (simp add: foldl_map)
  then show ?thesis by (simp add: map_nth)
qed

lemma left_fold_plain:
  "left_fold (\<lambda>previousValue currentValue currentIndex array. g previousValue currentValue) (x # xs)
   = foldl g x xs"
  unfolding left_fold_def using foldl_nth_tail[of g x xs x] by simp

lemma foldl_plus_sum_list: "foldl (+) (a::real) xs = a + sum_list xs"
  by (induction xs arbitrary: a) simp_all

lemma left_fold_sumReducer:
  assumes "vals \<noteq> []"
  shows "left_fold sumReducer vals = sum_list vals"
proof -
  obtain x xs where v: "vals = x # xs" using assms by (cases vals) auto
  have "sumReducer = (\<lambda>previousValue currentValue currentIndex array. previousValue + currentValue)"
    by (intro ext) (simp add: sumReducer_def)
  then show ?thesis
    unfolding v using left_fold_plain[of "(+)" x xs] by (simp add: foldl_plus_sum_list)
qed

lemma foldl_meanReducer_before_last:
  assumes "\<forall>k\<in>set ks. Suc k < length vals"
  shows "foldl (\<lambda>acc k. meanReducer acc (vals ! k) k vals) a ks =
         foldl (\<lambda>acc k. acc + vals ! k) a ks"
  using assms by (induction ks arbitrary: a) (auto simp: meanReducer_def)

lemma foldl_sum_take:
  assumes "m < length vals"
  shows "foldl (\<lambda>acc k. acc + vals ! k) (vals ! 0) [1..<Suc m] = sum_list (take (Suc m) (vals::real list))"
  using assms
proof (induction m)
  case 0
  then show ?case by (cases vals) simp_all
next
  case (Suc m)
  then have "foldl (\<lambda>acc k. acc + vals ! k) (vals ! 0) [1..<Suc m] = sum_list (take (Suc m) vals)"
    by simp
  then show ?case using Suc.prems by (simp add: take_Suc_conv_app_nth[of "Suc m"])
qed

lemma left_fold_meanReducer:
  assumes "vals \<noteq> []"
  shows "left_fold meanReducer vals = sum_list vals / real (length vals)"
proof (cases "length vals = 1")
  case True
  then obtain x where "vals = [x]" by (cases vals) auto
  then show ?thesis by simp
next
  case False
  have "length vals \<noteq> 0" using assms by simp
  then have "2 \<le> length vals" using False by arith
  then obtain n where n: "length vals = Suc (Suc n)"
    by (metis Suc_le_D Suc_le_mono numeral_2_eq_2)
  have up: "[1..<length vals] = [1..<Suc n] @ [Suc n]" using n by simp
  have pre: "foldl (\<lambda>acc k. meanReducer acc (vals ! k) k vals) (vals ! 0) [1..<Suc n] =
             sum_list (take (Suc n) vals)"
  proof -
    have "\<forall>k\<in>set [1..<Suc n]. Suc k < length vals" using n by auto
    from foldl_meanReducer_before_last[OF this] show ?thesis
      using foldl_sum_take[of n vals] n by simp
  qed
  have "left_fold meanReducer vals =
        meanReducer (sum_list (take (Suc n) vals)) (vals ! Suc n) (Suc n) vals"
    unfolding left_fold_def up foldl_append pre by simp
  also have "\<dots> = (sum_list (take (Suc n) vals) + vals ! Suc n) / real (length vals)"
    using n by (simp add: meanReducer_def)
  also have "sum_list (take (Suc n) vals) + vals ! Suc n = sum_list vals"
  proof -
    have tk: "take (Suc (Suc n)) vals = take (Suc n) vals @ [vals ! Suc n]"
      using n by (intro take_Suc_conv_app_nth) simp
    have "sum_list vals = sum_list (take (Suc (Suc n)) vals)" using n by simp
    also have "\<dots> = sum_list (take (Suc n) vals) + vals ! Suc n" unfolding tk by simp
    finally show ?thesis by simp
  qed
  finally show ?thesis .
qed

lemma gathered_nonempty:
  assumes "sizeOfShape (map (\<lambda>axis. sh ! axis) axs) \<noteq> 0"
  shows "gathered sh axs buf outputIndex \<noteq> []"
proof -
  have "length (gathered sh axs buf outputIndex) \<noteq> 0"
    unfolding length_gathered sorted_dims_nonzero by (rule assms)
  then show ?thesis by auto
qed

lemma reduced_values_mean_sum:
  assumes "sizeOfShape (map (\<lambda>axis. sh ! axis) axs) \<noteq> 0"
  shows "reduced_values meanReducer sh axs buf =
         map (\<lambda>x. x / real (sizeOfShape (map (\<lambda>axis. sh ! axis) (sort axs))))
           (reduced_values sumReducer sh axs buf)"
  unfolding reduced_values_def
  by (simp add: left_fold_meanReducer left_fold_sumReducer gathered_nonempty[OF assms] length_gathered)

subsection \<open>Reducing over all axes\<close>

lemma sort_all_axes:
  assumes "distinct axs" "set axs = {0..<R}"
  shows "sort axs = [0..<R]"
proof (rule sorted_distinct_set_unique)
  show "sorted (sort axs)" by simp
  show "distinct (sort axs)" using assms by simp
  show "sorted [0..<R]" by simp
  show "distinct [0..<R]" by simp
  show "set (sort axs) = set [0..<R]" using assms by simp
qed

lemma with_ones_all_axes:
  assumes "set axs = {0..<length sh}"
  shows "with_ones axs sh = replicate (length sh) 1"
proof (rule nth_equalityI)
  show "length (with_ones axs sh) = length (replicate (length sh) 1)" by simp
  fix i assume "i < length (with_ones axs sh)"
  then have i: "i < length sh" by simp
  then have "i \<in> set axs" using assms by simp
  then show "with_ones axs sh ! i = replicate (length sh) 1 ! i"
    using i by (simp add: nth_with_ones)
qed

lemma sizeOfShape_replicate_1 [simp]: "sizeOfShape (replicate n (Suc 0)) = Suc 0"
  by (simp add: sizeOfShape_def)

lemma all_axes_location:
  assumes r: "r < sizeOfShape sh"
  shows "inputLocation_of [0..<length sh] (reduceStrides_of sh) (rowMajorLocation (replicate (length sh) 1) 0) r
         = rowMajorLocation sh r"
proof (rule nth_equalityI)
  let ?A = "[0..<length sh]"
  let ?outLoc = "rowMajorLocation (replicate (length sh) 1) 0"
  let ?loc = "inputLocation_of ?A (reduceStrides_of sh) ?outLoc r"
  have A: "\<forall>a\<in>set ?A. a < length ?outLoc" by simp
  have n: "r < prod_list sh" using r by (simp add: sizeOfShape_def)
  have mr: "mixed_radix_location ?A sh (reduceStrides_of sh) ?outLoc r ?loc"
    using inputLocation_of_mixed_radix[OF A n] by simp
  show len: "length ?loc = length (rowMajorLocation sh r)"
    using mr by (simp add: mixed_radix_location_def)
  fix j assume "j < length ?loc"
  then have j: "j < length sh" using len by simp
  have "?loc ! (?A ! j) = (r div reduceStrides_of sh ! j) mod sh ! j"
    using mr j by (simp add: mixed_radix_location_def)
  then have "?loc ! j = (r div prod_list (drop (Suc j) sh)) mod sh ! j"
    using j by (simp add: nth_reduceStrides_of)
  then show "?loc ! j = rowMajorLocation sh r ! j"
    using nth_rowMajorLocation[OF r j] by simp
qed

lemma gathered_all_axes:
  assumes "distinct axs" "set axs = {0..<length sh}" "length buf = sizeOfShape sh"
  shows "gathered sh axs buf 0 = buf"
proof -
  have s: "sort axs = [0..<length sh]" using assms(1,2) by (rule sort_all_axes)
  have m: "map (\<lambda>axis. sh ! axis) [0..<length sh] = sh" by (rule map_nth)
  have "gathered sh axs buf 0 =
        map (\<lambda>r. buf ! rowMajorIndex sh
                     (inputLocation_of [0..<length sh] (reduceStrides_of sh)
                        (rowMajorLocation (replicate (length sh) 1) 0) r))
           [0..<sizeOfShape sh]"
    unfolding gathered_def Let_def s m with_ones_all_axes[OF assms(2)] ..
  also have "\<dots> = map (\<lambda>r. buf ! r) [0..<sizeOfShape sh]"
  proof (rule map_cong[OF refl])
    fix r assume "r \<in> set [0..<sizeOfShape sh]"
    then have r: "r < sizeOfShape sh" by simp
    show "buf ! rowMajorIndex sh
                     (inputLocation_of [0..<length sh] (reduceStrides_of sh)
                        (rowMajorLocation (replicate (length sh) 1) 0) r) = buf ! r"
      unfolding all_axes_location[OF r] rowMajor_roundtrip[OF r] ..
  qed
  also have "\<dots> = buf" using assms(3)[symmetric] by (simp add: map_nth)
  finally show ?thesis .
qed

lemma reduceSum_all_axes_value:
  assumes "tensor_ok s input" and "axes_allocated s options"
    and "distinct (axis_set s input options)"
    and "set (axis_set s input options) = {0..<rank s input}"
    and "0 \<notin> set (shape_of s input)"
  shows "\<exists>out s'. reduceSum input options s = (Inr out, s') \<and>
           data_of s' out = [sum_list (data_of s input)] \<and>
           shape_of s' out = (if keepDimensions options then replicate (rank s input) 1 else [])"
proof -
  let ?axs = "axis_set s input options"
  let ?sh = "shape_of s input"
  let ?buf = "data_of s input"
  have R: "rank s input = length ?sh" by (simp add: rank_def shape_of_def)
  have all: "set ?axs = {0..<length ?sh}" using assms(4) R by simp
  have nz: "sizeOfShape (map (\<lambda>axis. ?sh ! axis) ?axs) \<noteq> 0"
  proof -
    have "?sh ! axis \<noteq> 0" if "axis \<in> set ?axs" for axis
    proof -
      have "?sh ! axis \<in> set ?sh" using that all by (intro nth_mem) simp
      then show ?thesis using assms(5) by metis
    qed
    then have "0 \<notin> set (map (\<lambda>axis. ?sh ! axis) ?axs)" by fastforce
    then show ?thesis by (simp only: sizeOfShape_def prod_list_zero_iff) simp
  qed
  have v: "validates s input options"
    using assms(3) all nz by (simp add: validates_def Let_def)
  obtain out s' where r: "reduceSum input options s = (Inr out, s')"
    and sh: "shape_of s' out =
             (if keepDimensions options then with_ones ?axs ?sh
              else filter (\<lambda>d. d \<noteq> 1) (with_ones ?axs ?sh))"
    and d: "data_of s' out = reduced_values sumReducer ?sh ?axs ?buf"
    using reduce_observed[OF assms(1,2) v, of sumReducer] unfolding reduceSum_def by blast
  have wf: "length ?buf = sizeOfShape ?sh"
    using assms(1) by (simp add: tensor_ok_def data_of_def shape_of_def)
  have ne: "?buf \<noteq> []"
  proof -
    have "sizeOfShape ?sh \<noteq> 0" using assms(5) by (simp add: sizeOfShape_def prod_list_zero_iff)
    then show ?thesis using wf by auto
  qed
  have "reduced_values sumReducer ?sh ?axs ?buf = [left_fold sumReducer (gathered ?sh ?axs ?buf 0)]"
    by (simp add: reduced_values_def with_ones_all_axes[OF all])
  also have "\<dots> = [sum_list ?buf]"
    unfolding gathered_all_axes[OF assms(3) all wf] by (simp add: left_fold_sumReducer[OF ne])
  finally have d': "data_of s' out = [sum_list ?buf]" using d by simp
  have sh': "shape_of s' out = (if keepDimensions options then replicate (rank s input) 1 else [])"
    unfolding sh with_ones_all_axes[OF all] R by simp
  show ?thesis using r d' sh' by blast
qed

lemma relisted_axes:
  assumes t: "tensor_ok s input" and a: "axes options = Some r" "r < length (arrays s)"
    and old: "set (arrays s ! r) = {0..<rank s input}" and z: "0 \<notin> set (shape_of s input)"
    and new: "set listing = {0..<rank s input}"
  shows "tensor_ok (s\<lparr>arrays := (arrays s)[r := listing]\<rparr>) input \<and>
         axes_allocated (s\<lparr>arrays := (arrays s)[r := listing]\<rparr>) options \<and>
         axis_set (s\<lparr>arrays := (arrays s)[r := listing]\<rparr>) input options = listing \<and>
         rank (s\<lparr>arrays := (arrays s)[r := listing]\<rparr>) input = rank s input \<and>
         shape_of (s\<lparr>arrays := (arrays s)[r := listing]\<rparr>) input = shape_of s input \<and>
         data_of (s\<lparr>arrays := (arrays s)[r := listing]\<rparr>) input = data_of s input"
proof (cases "r = shape input")
  case True
  then have "set (shape_of s input) = {0..<length (shape_of s input)}"
    using old by (simp add: shape_of_def rank_def)
  then have "shape_of s input = []" using z by (cases "shape_of s input") auto
  then have e: "arrays s ! r = []" "rank s input = 0" using True by (simp_all add: shape_of_def rank_def)
  then have "listing = []" using new by simp
  then have "(arrays s)[r := listing] = arrays s" using e by (simp add: list_update_same_conv a(2))
  then show ?thesis
    using t a e \<open>listing = []\<close> by (simp add: axes_allocated_def axis_set_def)
next
  case False
  then show ?thesis
    using t a by (simp add: tensor_ok_def axes_allocated_def axis_set_def rank_def shape_of_def data_of_def)
qed

subsection \<open>Validation and the store\<close>

lemma reduce_explicit_axes:
  "axes options = Some r \<Longrightarrow>
   reduce input f options s = reduce_with_axes input f (keepDimensions options) r s"
  by (simp add: reduce_def)

lemma validateReduceParams_validates:
  assumes "axes options = Some r"
  shows "validateReduceParams s input f keep r = Inr () \<longleftrightarrow> validates s input options"
  unfolding validateReduceParams_ok_iff validates_def axis_set_def shape_of_def Let_def
  using assms by simp

lemma reduce_returns_validates:
  fixes s :: "'a::zero store"
  assumes "tensor_ok s input" and "axes_allocated s options"
    and "reduce input f options s = (Inr out, s')"
  shows "validates s input options"
proof (cases "axes options")
  case None
  let ?s1 = "s\<lparr>arrays := arrays s @ [[0..<rank s input]]\<rparr>"
  have al: "shape input < length (arrays s)" using assms(1) by (simp add: tensor_ok_def)
  have r: "reduce input f options s =
           reduce_with_axes input f (keepDimensions options) (length (arrays s)) ?s1"
    using None by (simp add: reduce_def new_array_def)
  have "validateReduceParams ?s1 input f (keepDimensions options) (length (arrays s)) = Inr ()"
  proof (cases "validateReduceParams ?s1 input f (keepDimensions options) (length (arrays s))")
    case (Inl e)
    have "fst (reduce input f options s) = Inl e"
      unfolding r using al by (subst reduce_with_axes_unfold) (simp_all add: Inl)
    then show ?thesis using assms(3) by simp
  next
    case (Inr u)
    then show ?thesis by simp
  qed
  then show ?thesis
    unfolding validateReduceParams_ok_iff validates_def axis_set_def shape_of_def Let_def
    using None al by (simp add: nth_append rank_def)
next
  case (Some r)
  have al: "shape input < length (arrays s)" using assms(1) by (simp add: tensor_ok_def)
  have a: "r < length (arrays s)" using assms(2) Some by (simp add: axes_allocated_def)
  have "validateReduceParams s input f (keepDimensions options) r = Inr ()"
  proof (cases "validateReduceParams s input f (keepDimensions options) r")
    case (Inl e)
    have "fst (reduce input f options s) = Inl e"
      unfolding reduce_explicit_axes[OF Some] reduce_with_axes_unfold[OF a al] Inl by simp
    then show ?thesis using assms(3) by simp
  next
    case (Inr u)
    then show ?thesis by simp
  qed
  then show ?thesis by (rule validateReduceParams_validates[OF Some, THEN iffD1])
qed


subsection \<open>Powers and sums of squares\<close>

lemma Math_pow_2 [simp]: "Math_pow x 2 = x * x"
  by (simp add: Math_pow_def power2_eq_square)

lemma Math_pow_half: "0 \<le> x \<Longrightarrow> Math_pow x (1 / 2) = sqrt x"
  by (simp add: Math_pow_def powr_half_sqrt)

lemma pow_eq:
  "pow a b s =
     (\<lparr>shape = length (arrays s), data = length (buffers s)\<rparr>,
      s\<lparr>arrays := arrays s @ [arrays s ! shape a],
        buffers := buffers s @ [map (\<lambda>x. Math_pow x b) (buffers s ! data a)]\<rparr>)"
  by (simp add: pow_def new_array_def)

lemma gathered_map:
  assumes "distinct axs" "\<forall>a\<in>set axs. a < length sh" "length buf = sizeOfShape sh"
    "outputIndex < sizeOfShape (with_ones axs sh)"
  shows "gathered sh axs (map g buf) outputIndex = map g (gathered sh axs buf outputIndex)"
proof -
  have "map g buf ! rowMajorIndex sh
                     (inputLocation_of (sort axs) (reduceStrides_of (map (\<lambda>axis. sh ! axis) (sort axs)))
                        (rowMajorLocation (with_ones axs sh) outputIndex) r) =
        g (buf ! rowMajorIndex sh
                     (inputLocation_of (sort axs) (reduceStrides_of (map (\<lambda>axis. sh ! axis) (sort axs)))
                        (rowMajorLocation (with_ones axs sh) outputIndex) r))"
    if "r \<in> set [0..<sizeOfShape (map (\<lambda>axis. sh ! axis) (sort axs))]" for r
  proof -
    have n: "r < sizeOfShape (map (\<lambda>axis. sh ! axis) (sort axs))" using that by simp
    have "rowMajorIndex sh
                     (inputLocation_of (sort axs) (reduceStrides_of (map (\<lambda>axis. sh ! axis) (sort axs)))
                        (rowMajorLocation (with_ones axs sh) outputIndex) r) < length buf"
      unfolding assms(3)
      by (rule rowMajorIndex_less[OF gathered_location_in_range[OF assms(1,2) n assms(4)]])
    then show ?thesis by simp
  qed
  then show ?thesis
    unfolding gathered_def Let_def map_map comp_def by (intro map_cong refl)
qed

lemma reduced_values_sum_of_squares:
  assumes "distinct axs" "\<forall>a\<in>set axs. a < length sh" "length buf = sizeOfShape sh"
    "sizeOfShape (map (\<lambda>axis. sh ! axis) axs) \<noteq> 0"
  shows "reduced_values sumReducer sh axs (map (\<lambda>x. x * x) buf) =
         map (\<lambda>outputIndex. \<Sum>x\<leftarrow>gathered sh axs buf outputIndex. x * x)
           [0..<sizeOfShape (with_ones axs sh)]"
  unfolding reduced_values_def
proof (rule map_cong[OF refl])
  fix outputIndex assume "outputIndex \<in> set [0..<sizeOfShape (with_ones axs sh)]"
  then have o: "outputIndex < sizeOfShape (with_ones axs sh)" by simp
  have ne: "gathered sh axs (map (\<lambda>x. x * x) buf) outputIndex \<noteq> []"
    by (rule gathered_nonempty[OF assms(4)])
  have "left_fold sumReducer (gathered sh axs (map (\<lambda>x. x * x) buf) outputIndex) =
        sum_list (gathered sh axs (map (\<lambda>x. x * x) buf) outputIndex)"
    by (rule left_fold_sumReducer[OF ne])
  then show "left_fold sumReducer (gathered sh axs (map (\<lambda>x. x * x) buf) outputIndex) =
        (\<Sum>x\<leftarrow>gathered sh axs buf outputIndex. x * x)"
    unfolding gathered_map[OF assms(1-3) o] .
qed

lemma sum_list_squares_nonneg: "0 \<le> (\<Sum>x\<leftarrow>xs. x * x :: real)"
  by (induction xs) simp_all

lemma squeeze_scalar_size:
  assumes "(if keep then osh else filter (\<lambda>d. d \<noteq> 1) osh) = ([]::nat list)"
  shows "sizeOfShape osh = 1"
proof (cases keep)
  case True
  then show ?thesis using assms by (simp add: sizeOfShape_def)
next
  case False
  then have "filter (\<lambda>d. d \<noteq> 1) osh = []" using assms by simp
  then have "\<forall>d\<in>set osh. d = 1" by (simp add: filter_empty_conv)
  then show ?thesis unfolding sizeOfShape_def by (induction osh) simp_all
qed

subsection \<open>The input and the output of a returning call\<close>





subsection \<open>The test scenario\<close>

lemma scenario_tensor_ok: "tensor_ok scenario_store scenario_input"
  by (simp add: tensor_ok_def scenario_store_def scenario_input_def sizeOfShape_def)

section \<open>The claims\<close>

subsection \<open>C1: the values gathered and their fold\<close>

text \<open>
  C1.  On a well-formed input and a valid axis set, \<^verbatim>\<open>reduce\<close> returns a tensor.  The
  stride table it computes satisfies \<open>reduceStrides[last] = 1\<close> and
  \<open>reduceStrides[i] = reduceStrides[i+1] * reduceDims[i+1]\<close> over the extents of the sorted
  reduced axes.  For every output flat index there is a sequence of exactly \<open>reduceElements\<close>
  values whose \<open>r\<close>-th entry is the input element at the location that has the mixed-radix
  digits of \<open>r\<close> on the reduced axes and the output's own coordinates elsewhere, and the
  stored output value is the left-to-right fold of the combining function over that sequence.
\<close>

theorem reduce_gathers_in_order_and_folds:
  fixes s :: "'a::zero store"
  assumes "tensor_ok s input" and "axes_allocated s options" and "validates s input options"
  shows "\<exists>out s'. reduce input f options s = (Inr out, s') \<and>
     (let sh = shape_of s input; A = sort (axis_set s input options);
          reduceDims = map (\<lambda>axis. sh ! axis) A;
          reduceStrides = reduceStrides_of reduceDims;
          reduceElements = sizeOfShape reduceDims;
          outputShape = with_ones A sh
      in stride_table reduceDims reduceStrides \<and>
         length (data_of s' out) = sizeOfShape outputShape \<and>
         (\<forall>outputIndex < sizeOfShape outputShape.
            \<exists>vals. length vals = reduceElements \<and>
              (\<forall>r < reduceElements. \<exists>location.
                  mixed_radix_location A reduceDims reduceStrides
                    (rowMajorLocation outputShape outputIndex) r location \<and>
                  getValueByLocation s input location = Inr (vals ! r)) \<and>
              data_of s' out ! outputIndex = left_fold f vals))"
proof -
  let ?sh = "shape_of s input"
  let ?axs = "axis_set s input options"
  let ?A = "sort ?axs"
  let ?dims = "map (\<lambda>axis. ?sh ! axis) ?A"
  let ?rs = "reduceStrides_of ?dims"
  let ?osh = "with_ones ?axs ?sh"
  let ?buf = "data_of s input"
  note vp = validates_parts[OF assms(3)]
  obtain out s' where r: "reduce input f options s = (Inr out, s')"
    and d: "data_of s' out = reduced_values f ?sh ?axs ?buf"
    using reduce_observed[OF assms, of f] by blast
  have wf: "length ?buf = sizeOfShape ?sh"
    using assms(1) by (simp add: tensor_ok_def data_of_def shape_of_def)
  have each: "\<exists>vals. length vals = sizeOfShape ?dims \<and>
              (\<forall>r < sizeOfShape ?dims. \<exists>location.
                  mixed_radix_location ?A ?dims ?rs (rowMajorLocation ?osh outputIndex) r location \<and>
                  getValueByLocation s input location = Inr (vals ! r)) \<and>
              data_of s' out ! outputIndex = left_fold f vals"
    if o: "outputIndex < sizeOfShape ?osh" for outputIndex
  proof (intro exI[of _ "gathered ?sh ?axs ?buf outputIndex"] conjI allI impI)
    show "length (gathered ?sh ?axs ?buf outputIndex) = sizeOfShape ?dims"
      by (rule length_gathered)
    show "data_of s' out ! outputIndex = left_fold f (gathered ?sh ?axs ?buf outputIndex)"
      unfolding d using o by (rule nth_reduced_values)
  next
    fix r assume n: "r < sizeOfShape ?dims"
    let ?loc = "inputLocation_of ?A ?rs (rowMajorLocation ?osh outputIndex) r"
    have A: "\<forall>a\<in>set ?A. a < length (rowMajorLocation ?osh outputIndex)" using vp(1) by simp
    have n': "r < prod_list ?dims" using n by (simp add: sizeOfShape_def)
    have mr: "mixed_radix_location ?A ?dims ?rs (rowMajorLocation ?osh outputIndex) r ?loc"
      using inputLocation_of_mixed_radix[OF A n'] vp(2) by simp
    have in_range: "list_all2 (<) ?loc ?sh"
      using gathered_location_in_range[OF vp(2) vp(1) n o] .
    have "getValueByLocation s input ?loc = Inr (?buf ! rowMajorIndex ?sh ?loc)"
      using assms(1) in_range by (rule getValueByLocation_in_range)
    then have g: "getValueByLocation s input ?loc = Inr (gathered ?sh ?axs ?buf outputIndex ! r)"
      unfolding nth_gathered[OF n] .
    show "\<exists>location. mixed_radix_location ?A ?dims ?rs (rowMajorLocation ?osh outputIndex) r location \<and>
            getValueByLocation s input location = Inr (gathered ?sh ?axs ?buf outputIndex ! r)"
      using mr g by blast
  qed
  have st: "stride_table ?dims ?rs" by (rule stride_table_reduceStrides_of)
  have len: "length (data_of s' out) = sizeOfShape ?osh" unfolding d by simp
  show ?thesis
    using r st len each by (auto simp: Let_def)
qed

theorem reduce_gathers_in_order_and_folds_witness:
  "tensor_ok scenario_store scenario_input \<and>
   axes_allocated scenario_store \<lparr>keepDimensions = False, axes = Some 1\<rparr> \<and>
   validates scenario_store scenario_input \<lparr>keepDimensions = False, axes = Some 1\<rparr> \<and>
   (\<exists>out s'. reduce scenario_input sumReducer \<lparr>keepDimensions = False, axes = Some 1\<rparr>
                scenario_store = (Inr out, s') \<and>
     (let sh = shape_of scenario_store scenario_input;
          A = sort (axis_set scenario_store scenario_input
                      \<lparr>keepDimensions = False, axes = Some 1\<rparr>);
          reduceDims = map (\<lambda>axis. sh ! axis) A;
          reduceStrides = reduceStrides_of reduceDims;
          reduceElements = sizeOfShape reduceDims;
          outputShape = with_ones A sh
      in stride_table reduceDims reduceStrides \<and>
         length (data_of s' out) = sizeOfShape outputShape \<and>
         (\<forall>outputIndex < sizeOfShape outputShape.
            \<exists>vals. length vals = reduceElements \<and>
              (\<forall>r < reduceElements. \<exists>location.
                  mixed_radix_location A reduceDims reduceStrides
                    (rowMajorLocation outputShape outputIndex) r location \<and>
                  getValueByLocation scenario_store scenario_input location = Inr (vals ! r)) \<and>
              data_of s' out ! outputIndex = left_fold sumReducer vals)))"
proof -
  have h1: "tensor_ok scenario_store scenario_input"
    by (simp add: tensor_ok_def scenario_store_def scenario_input_def sizeOfShape_def)
  have h2: "axes_allocated scenario_store \<lparr>keepDimensions = False, axes = Some 1\<rparr>"
    by (simp add: axes_allocated_def scenario_store_def)
  have h3: "validates scenario_store scenario_input \<lparr>keepDimensions = False, axes = Some 1\<rparr>"
    by (simp add: validates_def axis_set_def shape_of_def scenario_store_def scenario_input_def
        sizeOfShape_def)
  show ?thesis
    by (rule conjI[OF h1 conjI[OF h2 conjI[OF h3
          reduce_gathers_in_order_and_folds[OF h1 h2 h3, of sumReducer]]]])
qed

subsection \<open>C2: the sum over all axes\<close>

text \<open>
  C2.  Let the axis set of a call of \<^verbatim>\<open>reduceSum\<close> list every axis of the input exactly
  once, in any order (the extents of the input being at least 1, as in the spec's data
  model).  Then the call returns a tensor with the single element \<open>sum_list\<close> of the input's
  elements; its shape is empty, a scalar, unless \<^verbatim>\<open>keepDimensions\<close> is set, when it is all
  ones.  The order of the listing does not matter: with any other listing of all axes in the
  caller's axes array, the call returns the same elements in the same shape.  Numbers are
  exact here (see the head of the theory).
\<close>

theorem reduceSum_all_axes:
  assumes "tensor_ok s input" and "axes_allocated s options"
    and "distinct (axis_set s input options)"
    and "set (axis_set s input options) = {0..<rank s input}"
    and "0 \<notin> set (shape_of s input)"
  shows "\<exists>out s'. reduceSum input options s = (Inr out, s') \<and>
           data_of s' out = [sum_list (data_of s input)] \<and>
           shape_of s' out = (if keepDimensions options then replicate (rank s input) 1 else []) \<and>
           (\<forall>r listing. axes options = Some r \<and> distinct listing \<and>
                set listing = {0..<rank s input} \<longrightarrow>
              (\<exists>out2 s2. reduceSum input options (s\<lparr>arrays := (arrays s)[r := listing]\<rparr>) =
                            (Inr out2, s2) \<and>
                          data_of s2 out2 = data_of s' out \<and> shape_of s2 out2 = shape_of s' out))"
proof -
  obtain out s' where r: "reduceSum input options s = (Inr out, s')"
    and d: "data_of s' out = [sum_list (data_of s input)]"
    and sh: "shape_of s' out = (if keepDimensions options then replicate (rank s input) 1 else [])"
    using reduceSum_all_axes_value[OF assms] by blast
  have "\<exists>out2 s2. reduceSum input options (s\<lparr>arrays := (arrays s)[r := listing]\<rparr>) =
                            (Inr out2, s2) \<and>
                          data_of s2 out2 = data_of s' out \<and> shape_of s2 out2 = shape_of s' out"
    if h: "axes options = Some r \<and> distinct listing \<and> set listing = {0..<rank s input}"
    for r listing
  proof -
    let ?s = "s\<lparr>arrays := (arrays s)[r := listing]\<rparr>"
    have rl: "r < length (arrays s)" using assms(2) h by (simp add: axes_allocated_def)
    have old: "set (arrays s ! r) = {0..<rank s input}"
      using assms(4) h by (simp add: axis_set_def)
    note rel = relisted_axes[OF assms(1) _ rl old assms(5), of options listing]
    have 1: "tensor_ok ?s input" and 2: "axes_allocated ?s options"
      and 3: "axis_set ?s input options = listing" and 4: "rank ?s input = rank s input"
      and 5: "shape_of ?s input = shape_of s input" and 6: "data_of ?s input = data_of s input"
      using rel h by simp_all
    have "\<exists>out2 s2. reduceSum input options ?s = (Inr out2, s2) \<and>
           data_of s2 out2 = [sum_list (data_of ?s input)] \<and>
           shape_of s2 out2 = (if keepDimensions options then replicate (rank ?s input) 1 else [])"
      using h assms(5) by (intro reduceSum_all_axes_value[OF 1 2]) (simp_all add: 3 4 5)
    then show ?thesis unfolding d sh 4 6 .
  qed
  then show ?thesis using r d sh by blast
qed

theorem reduceSum_all_axes_witness:
  "tensor_ok scenario_store scenario_input \<and>
   axes_allocated scenario_store \<lparr>keepDimensions = False, axes = Some 3\<rparr> \<and>
   distinct (axis_set scenario_store scenario_input \<lparr>keepDimensions = False, axes = Some 3\<rparr>) \<and>
   set (axis_set scenario_store scenario_input \<lparr>keepDimensions = False, axes = Some 3\<rparr>) =
     {0..<rank scenario_store scenario_input} \<and>
   0 \<notin> set (shape_of scenario_store scenario_input) \<and>
   (\<exists>out s'. reduceSum scenario_input \<lparr>keepDimensions = False, axes = Some 3\<rparr> scenario_store =
                (Inr out, s') \<and>
              data_of s' out = [21] \<and> shape_of s' out = []) \<and>
   (\<exists>out s'. reduceSum scenario_input \<lparr>keepDimensions = False, axes = Some 3\<rparr>
                (scenario_store\<lparr>arrays := (arrays scenario_store)[3 := [0, 1]]\<rparr>) =
                (Inr out, s') \<and>
              data_of s' out = [21] \<and> shape_of s' out = [])"
proof -
  let ?o = "\<lparr>keepDimensions = False, axes = Some 3\<rparr>"
  have h1: "tensor_ok scenario_store scenario_input" by (rule scenario_tensor_ok)
  have h2: "axes_allocated scenario_store ?o" by (simp add: axes_allocated_def scenario_store_def)
  have h3: "distinct (axis_set scenario_store scenario_input ?o)"
    by (simp add: axis_set_def scenario_store_def)
  have h4: "set (axis_set scenario_store scenario_input ?o) = {0..<rank scenario_store scenario_input}"
    by (auto simp: axis_set_def rank_def scenario_store_def scenario_input_def)
  have h5: "0 \<notin> set (shape_of scenario_store scenario_input)"
    by (simp add: shape_of_def scenario_store_def scenario_input_def)
  have d: "sum_list (data_of scenario_store scenario_input) = 21"
    by (simp add: data_of_def scenario_store_def scenario_input_def)
  have l: "axes ?o = Some 3 \<and> distinct [0, 1::nat] \<and>
           set [0, 1] = {0..<rank scenario_store scenario_input}"
    by (auto simp: rank_def scenario_store_def scenario_input_def)
  obtain out s' where r: "reduceSum scenario_input ?o scenario_store = (Inr out, s')"
    and v: "data_of s' out = [21]" and sh: "shape_of s' out = []"
    and any: "\<forall>r listing. axes ?o = Some r \<and> distinct listing \<and>
                set listing = {0..<rank scenario_store scenario_input} \<longrightarrow>
              (\<exists>out2 s2. reduceSum scenario_input ?o
                            (scenario_store\<lparr>arrays := (arrays scenario_store)[r := listing]\<rparr>) =
                            (Inr out2, s2) \<and>
                          data_of s2 out2 = data_of s' out \<and> shape_of s2 out2 = shape_of s' out)"
    using reduceSum_all_axes[OF h1 h2 h3 h4 h5] unfolding d by auto
  have b: "\<exists>out2 s2. reduceSum scenario_input ?o
                            (scenario_store\<lparr>arrays := (arrays scenario_store)[3 := [0, 1]]\<rparr>) =
                            (Inr out2, s2) \<and>
                          data_of s2 out2 = [21] \<and> shape_of s2 out2 = []"
    using any[rule_format, OF l] unfolding v sh .
  show ?thesis using h1 h2 h3 h4 h5 r v sh b by blast
qed

subsection \<open>C3: the shape of the result\<close>

text \<open>
  C3.  On a well-formed input of shape \<open>S\<close> and a valid axis set \<open>A\<close>, \<^verbatim>\<open>reduce\<close> with
  \<^verbatim>\<open>keepDimensions\<close> returns a tensor of shape \<open>S\<close> with every axis in \<open>A\<close> set to 1.
  Without \<^verbatim>\<open>keepDimensions\<close> the result has gone through \<^verbatim>\<open>squeeze\<close>: every entry 1 of that
  shape is removed, so that the axes that remain are those that are not reduced and are not
  of size 1 in the input.
\<close>

theorem reduce_output_shape:
  fixes s :: "'a::zero store"
  assumes "tensor_ok s input" and "axes_allocated s options" and "validates s input options"
  shows "\<exists>out s'. reduce input f options s = (Inr out, s') \<and>
     (let S = shape_of s input; A = axis_set s input options
      in shape_of s' out =
           (if keepDimensions options then with_ones A S
            else filter (\<lambda>d. d \<noteq> 1) (with_ones A S)) \<and>
         (\<not> keepDimensions options \<longrightarrow>
            shape_of s' out =
              map (\<lambda>i. S ! i) (filter (\<lambda>i. i \<notin> set A \<and> S ! i \<noteq> 1) [0..<length S])))"
proof -
  obtain out s' where r: "reduce input f options s = (Inr out, s')"
    and sh: "shape_of s' out =
             (if keepDimensions options then with_ones (axis_set s input options) (shape_of s input)
              else filter (\<lambda>d. d \<noteq> 1) (with_ones (axis_set s input options) (shape_of s input)))"
    using reduce_observed[OF assms, of f] by blast
  have sq: "\<not> keepDimensions options \<longrightarrow>
            shape_of s' out =
              map (\<lambda>i. shape_of s input ! i)
                (filter (\<lambda>i. i \<notin> set (axis_set s input options) \<and> shape_of s input ! i \<noteq> 1)
                   [0..<length (shape_of s input)])"
    unfolding sh squeeze_with_ones[symmetric] by simp
  show ?thesis
    unfolding Let_def using r sh sq by blast
qed

theorem reduce_output_shape_witness:
  "tensor_ok squeeze_scenario_store scenario_input \<and>
   axes_allocated squeeze_scenario_store \<lparr>keepDimensions = False, axes = Some 1\<rparr> \<and>
   validates squeeze_scenario_store scenario_input \<lparr>keepDimensions = False, axes = Some 1\<rparr> \<and>
   (\<exists>out s'. reduce scenario_input sumReducer \<lparr>keepDimensions = False, axes = Some 1\<rparr>
                squeeze_scenario_store = (Inr out, s') \<and>
              shape_of s' out = [3]) \<and>
   (\<exists>out s'. reduce scenario_input sumReducer \<lparr>keepDimensions = True, axes = Some 1\<rparr>
                squeeze_scenario_store = (Inr out, s') \<and>
              shape_of s' out = [1, 1, 3])"
proof -
  let ?o = "\<lparr>keepDimensions = False, axes = Some 1\<rparr>"
  let ?k = "\<lparr>keepDimensions = True, axes = Some 1\<rparr>"
  have h1: "tensor_ok squeeze_scenario_store scenario_input"
    by (simp add: tensor_ok_def squeeze_scenario_store_def scenario_input_def sizeOfShape_def)
  have h2: "axes_allocated squeeze_scenario_store ?o" "axes_allocated squeeze_scenario_store ?k"
    by (simp_all add: axes_allocated_def squeeze_scenario_store_def)
  have h3: "validates squeeze_scenario_store scenario_input ?o"
    "validates squeeze_scenario_store scenario_input ?k"
    by (simp_all add: validates_def axis_set_def shape_of_def squeeze_scenario_store_def
        scenario_input_def sizeOfShape_def)
  have w: "with_ones (axis_set squeeze_scenario_store scenario_input ?o)
             (shape_of squeeze_scenario_store scenario_input) = [1, 1, 3]"
    "with_ones (axis_set squeeze_scenario_store scenario_input ?k)
             (shape_of squeeze_scenario_store scenario_input) = [1, 1, 3]"
    by (simp_all add: with_ones_def axis_set_def shape_of_def squeeze_scenario_store_def
        scenario_input_def upt_rec)
  have a: "\<exists>out s'. reduce scenario_input sumReducer ?o squeeze_scenario_store = (Inr out, s') \<and>
              shape_of s' out = [3]"
    using reduce_output_shape[OF h1 h2(1) h3(1), of sumReducer] unfolding Let_def w by auto
  have b: "\<exists>out s'. reduce scenario_input sumReducer ?k squeeze_scenario_store = (Inr out, s') \<and>
              shape_of s' out = [1, 1, 3]"
    using reduce_output_shape[OF h1 h2(2) h3(2), of sumReducer] unfolding Let_def w by auto
  show ?thesis using h1 h2(1) h3(1) a b by blast
qed

subsection \<open>C4: the mean is the sum over the count\<close>

text \<open>
  C4.  On a well-formed input and a valid axis set, \<^verbatim>\<open>reduceMean\<close> and \<^verbatim>\<open>reduceSum\<close> both
  return, with the same shape, and every element of the mean is the element of the sum
  divided by \<open>reduceElements\<close>, the product of the extents of the reduced axes.  The mean
  combiner gets there by a running sum that is divided on the last folded element only: its
  fold over any non-empty sequence is the sum of the sequence over its length.
\<close>

theorem reduceMean_is_reduceSum_over_count:
  assumes "tensor_ok s input" and "axes_allocated s options" and "validates s input options"
  shows "(\<exists>outM sM outS sS.
            reduceMean input options s = (Inr outM, sM) \<and>
            reduceSum input options s = (Inr outS, sS) \<and>
            shape_of sM outM = shape_of sS outS \<and>
            data_of sM outM =
              map (\<lambda>x. x / real (sizeOfShape (map (\<lambda>axis. shape_of s input ! axis)
                                                  (sort (axis_set s input options)))))
                (data_of sS outS)) \<and>
         (\<forall>vals. vals \<noteq> [] \<longrightarrow>
            array_reduce meanReducer vals = Inr (sum_list vals / real (length vals)))"
proof -
  obtain outM sM where m: "reduceMean input options s = (Inr outM, sM)"
    and msh: "shape_of sM outM =
             (if keepDimensions options then with_ones (axis_set s input options) (shape_of s input)
              else filter (\<lambda>d. d \<noteq> 1) (with_ones (axis_set s input options) (shape_of s input)))"
    and md: "data_of sM outM =
             reduced_values meanReducer (shape_of s input) (axis_set s input options) (data_of s input)"
    using reduce_observed[OF assms, of meanReducer] unfolding reduceMean_def by blast
  obtain outS sS where su: "reduceSum input options s = (Inr outS, sS)"
    and ssh: "shape_of sS outS =
             (if keepDimensions options then with_ones (axis_set s input options) (shape_of s input)
              else filter (\<lambda>d. d \<noteq> 1) (with_ones (axis_set s input options) (shape_of s input)))"
    and sd: "data_of sS outS =
             reduced_values sumReducer (shape_of s input) (axis_set s input options) (data_of s input)"
    using reduce_observed[OF assms, of sumReducer] unfolding reduceSum_def by blast
  have eq: "data_of sM outM =
              map (\<lambda>x. x / real (sizeOfShape (map (\<lambda>axis. shape_of s input ! axis)
                                                  (sort (axis_set s input options)))))
                (data_of sS outS)"
    unfolding md sd by (rule reduced_values_mean_sum[OF validates_parts(3)[OF assms(3)]])
  have fold: "\<forall>vals. vals \<noteq> [] \<longrightarrow>
            array_reduce meanReducer vals = Inr (sum_list vals / real (length vals))"
    by (simp add: array_reduce_left_fold left_fold_meanReducer)
  have sh: "shape_of sM outM = shape_of sS outS" unfolding msh ssh ..
  show ?thesis using m su sh eq fold by blast
qed

theorem reduceMean_is_reduceSum_over_count_witness:
  "tensor_ok scenario_store scenario_input \<and>
   axes_allocated scenario_store \<lparr>keepDimensions = False, axes = Some 3\<rparr> \<and>
   validates scenario_store scenario_input \<lparr>keepDimensions = False, axes = Some 3\<rparr> \<and>
   (\<exists>outM sM outS sS.
      reduceMean scenario_input \<lparr>keepDimensions = False, axes = Some 3\<rparr> scenario_store =
        (Inr outM, sM) \<and>
      reduceSum scenario_input \<lparr>keepDimensions = False, axes = Some 3\<rparr> scenario_store =
        (Inr outS, sS) \<and>
      shape_of sM outM = shape_of sS outS \<and>
      data_of sM outM = map (\<lambda>x. x / 6) (data_of sS outS)) \<and>
   array_reduce meanReducer [1, 2, 6] = Inr 3"
proof -
  let ?o = "\<lparr>keepDimensions = False, axes = Some 3\<rparr>"
  have h1: "tensor_ok scenario_store scenario_input"
    by (simp add: tensor_ok_def scenario_store_def scenario_input_def sizeOfShape_def)
  have h2: "axes_allocated scenario_store ?o" by (simp add: axes_allocated_def scenario_store_def)
  have h3: "validates scenario_store scenario_input ?o"
    by (simp add: validates_def axis_set_def shape_of_def scenario_store_def scenario_input_def
        sizeOfShape_def)
  have n: "sizeOfShape (map (\<lambda>axis. shape_of scenario_store scenario_input ! axis)
             (sort (axis_set scenario_store scenario_input ?o))) = 6"
    by (simp add: axis_set_def shape_of_def scenario_store_def scenario_input_def sizeOfShape_def)
  note t = reduceMean_is_reduceSum_over_count[OF h1 h2 h3, unfolded n]
  have a: "array_reduce meanReducer [1, 2, 6] = Inr 3"
    using t[THEN conjunct2, rule_format, of "[1, 2, 6]"] by simp
  show ?thesis using h1 h2 h3 t[THEN conjunct1] a by simp
qed

subsection \<open>C5: validation and the output\<close>

text \<open>
  C5, as stated, fails on the code: the claim has \<^verbatim>\<open>validateReduceParams\<close> checked before any
  engine work begins.  Lines 19-22 derive the output shape before line 24 validates.  On the
  scenario's input with the axes \<^verbatim>\<open>[2]\<close> validation fails with a ShapeError, and the store in
  which the error is raised is not the store of the call: it holds the derived output shape
  \<^verbatim>\<open>[2,3,1]\<close>.
\<close>

theorem reduce_validation_first_counterexample:
  "validateReduceParams scenario_store scenario_input sumReducer False 5 = Inl ShapeError \<and>
   snd (reduce scenario_input sumReducer \<lparr>keepDimensions = False, axes = Some 5\<rparr> scenario_store) =
     scenario_store\<lparr>arrays := arrays scenario_store @ [[2, 3, 1]]\<rparr> \<and>
   snd (reduce scenario_input sumReducer \<lparr>keepDimensions = False, axes = Some 5\<rparr> scenario_store) \<noteq>
     scenario_store"
proof -
  have v: "validateReduceParams scenario_store scenario_input sumReducer False 5 = Inl ShapeError"
    by (simp add: validateReduceParams_def rank_def scenario_store_def scenario_input_def)
  have r: "reduce scenario_input sumReducer \<lparr>keepDimensions = False, axes = Some 5\<rparr> scenario_store =
        (Inl ShapeError, scenario_store\<lparr>arrays := arrays scenario_store @ [[2, 3, 1]]\<rparr>)"
    by code_simp
  have n: "scenario_store\<lparr>arrays := arrays scenario_store @ [[2, 3, 1]]\<rparr> \<noteq> scenario_store"
    by (simp add: scenario_store_def)
  show ?thesis using v n unfolding r by simp
qed

text \<open>
  C5, amended.  \<^verbatim>\<open>validateReduceParams\<close> is checked once the axes array is chosen and the
  output shape is derived on a copy of the input's shape, and before anything else: when it
  fails, \<^verbatim>\<open>reduce\<close> raises its error in a store that differs from the store of the call by
  that copy (and by the default axes array, when the caller gave none).  No buffer is
  allocated, so there is no output, partial or whole, and every array of the caller is as
  it was: the axes are not sorted.
\<close>

theorem reduce_validation_failure:
  fixes s :: "'a::zero store"
  assumes "shape input < length (arrays s)" and "axes_allocated s options"
    and "(inpAxes, s1) = (case axes options of
                            Some r \<Rightarrow> (r, s)
                          | None \<Rightarrow> new_array [0..<rank s input] s)"
    and "validateReduceParams s1 input f (keepDimensions options) inpAxes = Inl e"
  shows "reduce input f options s =
           (Inl e, s1\<lparr>arrays := arrays s1 @
              [fold (\<lambda>axis xs. array_assign xs axis 1) (arrays s1 ! inpAxes)
                 (arrays s ! shape input)]\<rparr>) \<and>
         buffers (snd (reduce input f options s)) = buffers s \<and>
         take (length (arrays s)) (arrays (snd (reduce input f options s))) = arrays s"
proof -
  have a: "inpAxes < length (arrays s1)" and sh: "shape input < length (arrays s1)"
    and shs: "arrays s1 ! shape input = arrays s ! shape input"
    and b: "buffers s1 = buffers s" and p: "take (length (arrays s)) (arrays s1) = arrays s"
    using assms(1-3)
    by (auto simp: axes_allocated_def new_array_def nth_append split: option.splits)
  have r: "reduce input f options s = reduce_with_axes input f (keepDimensions options) inpAxes s1"
    unfolding reduce_def assms(3)[symmetric] by simp
  have 1: "reduce input f options s =
           (Inl e, s1\<lparr>arrays := arrays s1 @
              [fold (\<lambda>axis xs. array_assign xs axis 1) (arrays s1 ! inpAxes)
                 (arrays s ! shape input)]\<rparr>)"
    unfolding r reduce_with_axes_unfold[OF a sh] assms(4) shs by simp
  have l: "length (arrays s) \<le> length (arrays s1)"
    using assms(3) by (auto simp: new_array_def split: option.splits)
  show ?thesis unfolding 1 using b p l by simp
qed

theorem reduce_validation_failure_witness:
  "shape scenario_input < length (arrays scenario_store) \<and>
   axes_allocated scenario_store \<lparr>keepDimensions = False, axes = Some 5\<rparr> \<and>
   (5, scenario_store) =
     (case axes \<lparr>keepDimensions = False, axes = Some 5\<rparr> of
        Some r \<Rightarrow> (r, scenario_store)
      | None \<Rightarrow> new_array [0..<rank scenario_store scenario_input] scenario_store) \<and>
   validateReduceParams scenario_store scenario_input sumReducer
     (keepDimensions \<lparr>keepDimensions = False, axes = Some 5\<rparr>) 5 = Inl ShapeError \<and>
   reduce scenario_input sumReducer \<lparr>keepDimensions = False, axes = Some 5\<rparr> scenario_store =
     (Inl ShapeError, scenario_store\<lparr>arrays := arrays scenario_store @ [[2, 3, 1]]\<rparr>) \<and>
   buffers (snd (reduce scenario_input sumReducer \<lparr>keepDimensions = False, axes = Some 5\<rparr>
                   scenario_store)) = buffers scenario_store \<and>
   take (length (arrays scenario_store))
     (arrays (snd (reduce scenario_input sumReducer \<lparr>keepDimensions = False, axes = Some 5\<rparr>
                     scenario_store))) = arrays scenario_store"
proof -
  let ?o = "\<lparr>keepDimensions = False, axes = Some 5\<rparr>"
  have h1: "shape scenario_input < length (arrays scenario_store)"
    by (simp add: scenario_store_def scenario_input_def)
  have h2: "axes_allocated scenario_store ?o" by (simp add: axes_allocated_def scenario_store_def)
  have h3: "(5, scenario_store) =
     (case axes ?o of
        Some r \<Rightarrow> (r, scenario_store)
      | None \<Rightarrow> new_array [0..<rank scenario_store scenario_input] scenario_store)"
    by simp
  have h4: "validateReduceParams scenario_store scenario_input sumReducer (keepDimensions ?o) 5 =
              Inl ShapeError"
    by (simp add: validateReduceParams_def rank_def scenario_store_def scenario_input_def)
  have f: "fold (\<lambda>axis xs. array_assign xs axis 1) (arrays scenario_store ! 5)
             (arrays scenario_store ! shape scenario_input) = [2, 3, 1]"
    by (simp add: scenario_store_def scenario_input_def array_assign_def)
  show ?thesis
    using h1 h2 h3 h4 reduce_validation_failure[OF h1 h2 h3 h4] unfolding f by simp
qed

subsection \<open>C6: ShapeError\<close>

text \<open>
  C6.  On a well-formed input and an explicit axes array, \<^verbatim>\<open>reduce\<close> fails with a ShapeError
  exactly when an entry of the array is not below the rank of the input or the array holds
  an entry twice; it then allocates no buffer.  (Entries are unsigned, so outside
  \<open>[0, rank)\<close> means at or above the rank.)  The validator is modelled from the spec.
\<close>

theorem reduce_ShapeError_iff:
  fixes s :: "'a::zero store"
  assumes "tensor_ok s input" and "axes options = Some r" and "r < length (arrays s)"
  shows "(fst (reduce input f options s) = Inl ShapeError \<longleftrightarrow>
            (\<exists>axis\<in>set (arrays s ! r). rank s input \<le> axis) \<or> \<not> distinct (arrays s ! r)) \<and>
         (fst (reduce input f options s) = Inl ShapeError \<longrightarrow>
            buffers (snd (reduce input f options s)) = buffers s)"
proof -
  have al: "shape input < length (arrays s)" using assms(1) by (simp add: tensor_ok_def)
  have ax: "axes_allocated s options" using assms(2,3) by (simp add: axes_allocated_def)
  note unf = reduce_with_axes_unfold[OF assms(3) al, of f "keepDimensions options"]
  show ?thesis
  proof (cases "validateReduceParams s input f (keepDimensions options) r")
    case (Inl e)
    have res: "fst (reduce input f options s) = Inl e"
      "buffers (snd (reduce input f options s)) = buffers s"
      unfolding reduce_explicit_axes[OF assms(2)] unf Inl by simp_all
    have "e = ShapeError \<longleftrightarrow>
          (\<exists>axis\<in>set (arrays s ! r). rank s input \<le> axis) \<or> \<not> distinct (arrays s ! r)"
      using validateReduceParams_ShapeError_iff[of s input f "keepDimensions options" r] Inl
      by (auto simp: rank_def not_less)
    then show ?thesis using res by simp
  next
    case (Inr u)
    then have ok: "validateReduceParams s input f (keepDimensions options) r = Inr ()" by simp
    then have v: "validates s input options"
      by (rule validateReduceParams_validates[OF assms(2), THEN iffD1])
    obtain out s' where "reduce input f options s = (Inr out, s')"
      using reduce_observed[OF assms(1) ax v, of f] by blast
    then have 1: "fst (reduce input f options s) \<noteq> Inl ShapeError" by simp
    have 2: "\<not> ((\<exists>axis\<in>set (arrays s ! r). rank s input \<le> axis) \<or> \<not> distinct (arrays s ! r))"
      using ok unfolding validateReduceParams_ok_iff by (auto simp: rank_def)
    show ?thesis using 1 2 by simp
  qed
qed

theorem reduce_ShapeError_iff_witness:
  "tensor_ok scenario_store scenario_input \<and>
   fst (reduce scenario_input sumReducer \<lparr>keepDimensions = False, axes = Some 5\<rparr> scenario_store)
     = Inl ShapeError \<and>
   buffers (snd (reduce scenario_input sumReducer \<lparr>keepDimensions = False, axes = Some 5\<rparr>
                   scenario_store)) = buffers scenario_store \<and>
   fst (reduce scenario_input sumReducer \<lparr>keepDimensions = False, axes = Some 6\<rparr> scenario_store)
     = Inl ShapeError \<and>
   fst (reduce scenario_input sumReducer \<lparr>keepDimensions = False, axes = Some 1\<rparr> scenario_store)
     \<noteq> Inl ShapeError"
proof -
  have h1: "tensor_ok scenario_store scenario_input"
    by (simp add: tensor_ok_def scenario_store_def scenario_input_def sizeOfShape_def)
  have l: "5 < length (arrays scenario_store)" "6 < length (arrays scenario_store)"
    "1 < length (arrays scenario_store)"
    by (simp_all add: scenario_store_def)
  have r5: "(\<exists>axis\<in>set (arrays scenario_store ! 5). rank scenario_store scenario_input \<le> axis) \<or>
            \<not> distinct (arrays scenario_store ! 5)"
    by (simp add: scenario_store_def scenario_input_def rank_def)
  have r6: "(\<exists>axis\<in>set (arrays scenario_store ! 6). rank scenario_store scenario_input \<le> axis) \<or>
            \<not> distinct (arrays scenario_store ! 6)"
    by (simp add: scenario_store_def scenario_input_def rank_def)
  have r1: "\<not> ((\<exists>axis\<in>set (arrays scenario_store ! 1). rank scenario_store scenario_input \<le> axis) \<or>
            \<not> distinct (arrays scenario_store ! 1))"
    by (simp add: scenario_store_def scenario_input_def rank_def)
  show ?thesis
    using h1 r5 r6 r1
      reduce_ShapeError_iff[OF h1 _ l(1), of "\<lparr>keepDimensions = False, axes = Some 5\<rparr>" sumReducer]
      reduce_ShapeError_iff[OF h1 _ l(2), of "\<lparr>keepDimensions = False, axes = Some 6\<rparr>" sumReducer]
      reduce_ShapeError_iff[OF h1 _ l(3), of "\<lparr>keepDimensions = False, axes = Some 1\<rparr>" sumReducer]
    by simp
qed

subsection \<open>C7: the empty axis set\<close>

text \<open>
  C7.  On a well-formed input and an explicit, empty axes array, for every combining
  function: \<open>reduceElements\<close> is 1, \<^verbatim>\<open>reduce\<close> returns, and the elements of the output are
  the elements of the input, flat index by flat index.  The shape is the input's (squeezed
  without \<^verbatim>\<open>keepDimensions\<close>); a rank-0 input gives a rank-0 output with its scalar.
\<close>

theorem reduce_empty_axes_identity:
  fixes s :: "'a::zero store"
  assumes "tensor_ok s input" and "axes options = Some r" and "r < length (arrays s)"
    and "arrays s ! r = []"
  shows "sizeOfShape (map (\<lambda>axis. shape_of s input ! axis) (sort (arrays s ! r))) = 1 \<and>
     (\<exists>out s'. reduce input f options s = (Inr out, s') \<and>
        data_of s' out = data_of s input \<and>
        shape_of s' out =
          (if keepDimensions options then shape_of s input
           else filter (\<lambda>d. d \<noteq> 1) (shape_of s input)) \<and>
        (shape_of s input = [] \<longrightarrow> shape_of s' out = []))"
proof -
  have axs: "axis_set s input options = []" using assms(2,4) by (simp add: axis_set_def)
  have al: "axes_allocated s options" using assms(2,3) by (simp add: axes_allocated_def)
  have v: "validates s input options" by (simp add: validates_def axs sizeOfShape_def)
  obtain out s' where r: "reduce input f options s = (Inr out, s')"
    and sh: "shape_of s' out =
             (if keepDimensions options then with_ones (axis_set s input options) (shape_of s input)
              else filter (\<lambda>d. d \<noteq> 1) (with_ones (axis_set s input options) (shape_of s input)))"
    and d: "data_of s' out =
             reduced_values f (shape_of s input) (axis_set s input options) (data_of s input)"
    using reduce_observed[OF assms(1) al v, of f] by blast
  have wf: "length (data_of s input) = sizeOfShape (shape_of s input)"
    using assms(1) by (simp add: tensor_ok_def data_of_def shape_of_def)
  have d': "data_of s' out = data_of s input"
    unfolding d axs by (rule reduced_values_no_axes[OF wf])
  have one: "sizeOfShape (map (\<lambda>axis. shape_of s input ! axis) (sort (arrays s ! r))) = 1"
    using assms(4) by (simp add: sizeOfShape_def)
  show ?thesis
    using one r d' sh by (auto simp: axs)
qed

theorem reduce_empty_axes_identity_witness:
  "tensor_ok scalar_store scenario_input \<and> 1 < length (arrays scalar_store) \<and>
   arrays scalar_store ! 1 = [] \<and>
   (\<exists>out s'. reduce scenario_input sumReducer \<lparr>keepDimensions = False, axes = Some 1\<rparr>
                scalar_store = (Inr out, s') \<and>
              data_of s' out = [7] \<and> shape_of s' out = []) \<and>
   tensor_ok scenario_store scenario_input \<and> arrays scenario_store ! 4 = [] \<and>
   (\<exists>out s'. reduce scenario_input sumReducer \<lparr>keepDimensions = False, axes = Some 4\<rparr>
                scenario_store = (Inr out, s') \<and>
              data_of s' out = [1, 2, 3, 4, 5, 6] \<and> shape_of s' out = [2, 3])"
proof -
  have h1: "tensor_ok scalar_store scenario_input"
    by (simp add: tensor_ok_def scalar_store_def scenario_input_def sizeOfShape_def)
  have h3: "1 < length (arrays scalar_store)" by (simp add: scalar_store_def)
  have h4: "arrays scalar_store ! 1 = []" by (simp add: scalar_store_def)
  have d: "data_of scalar_store scenario_input = [7]" "shape_of scalar_store scenario_input = []"
    by (simp_all add: data_of_def shape_of_def scalar_store_def scenario_input_def)
  have a: "\<exists>out s'. reduce scenario_input sumReducer \<lparr>keepDimensions = False, axes = Some 1\<rparr>
                scalar_store = (Inr out, s') \<and>
              data_of s' out = [7] \<and> shape_of s' out = []"
    using reduce_empty_axes_identity[OF h1 _ h3 h4,
        of "\<lparr>keepDimensions = False, axes = Some 1\<rparr>" sumReducer]
    unfolding d by auto
  have g1: "tensor_ok scenario_store scenario_input"
    by (simp add: tensor_ok_def scenario_store_def scenario_input_def sizeOfShape_def)
  have g3: "4 < length (arrays scenario_store)" by (simp add: scenario_store_def)
  have g4: "arrays scenario_store ! 4 = []" by (simp add: scenario_store_def)
  have e: "data_of scenario_store scenario_input = [1, 2, 3, 4, 5, 6]"
    "shape_of scenario_store scenario_input = [2, 3]"
    by (simp_all add: data_of_def shape_of_def scenario_store_def scenario_input_def)
  have b: "\<exists>out s'. reduce scenario_input sumReducer \<lparr>keepDimensions = False, axes = Some 4\<rparr>
                scenario_store = (Inr out, s') \<and>
              data_of s' out = [1, 2, 3, 4, 5, 6] \<and> shape_of s' out = [2, 3]"
    using reduce_empty_axes_identity[OF g1 _ g3 g4,
        of "\<lparr>keepDimensions = False, axes = Some 4\<rparr>" sumReducer]
    unfolding e by auto
  show ?thesis using h1 h3 h4 a g1 g4 b by blast
qed

subsection \<open>C8: the L2 norm\<close>

text \<open>
  C8.  On a well-formed input and a valid axis set, \<^verbatim>\<open>reduceSumSquare\<close> and \<^verbatim>\<open>reduceL2\<close>
  both return, with the same shape; every element of \<^verbatim>\<open>reduceL2\<close> is the square root of the
  element of \<^verbatim>\<open>reduceSumSquare\<close>, on the rank-0 branch (a direct \<^verbatim>\<open>Math.pow(v, 0.5)\<close>) as
  on the other (the elementwise \<^verbatim>\<open>pow\<close>); and every element of \<^verbatim>\<open>reduceSumSquare\<close> is the
  sum of the squares of the values gathered for it.  The witness is the spec's example:
  \<^verbatim>\<open>[3,4]\<close> of shape \<^verbatim>\<open>[2]\<close> over all axes gives 5.
\<close>

theorem reduceL2_is_sqrt_of_reduceSumSquare:
  assumes "tensor_ok s input" and "axes_allocated s options" and "validates s input options"
  shows "\<exists>t s1 t2 s2.
           reduceSumSquare input options s = (Inr t, s1) \<and>
           reduceL2 input options s = (Inr t2, s2) \<and>
           shape_of s2 t2 = shape_of s1 t \<and>
           data_of s2 t2 = map sqrt (data_of s1 t) \<and>
           data_of s1 t =
             map (\<lambda>outputIndex.
                    \<Sum>x\<leftarrow>gathered (shape_of s input) (axis_set s input options) (data_of s input)
                          outputIndex. x * x)
               [0..<sizeOfShape (with_ones (axis_set s input options) (shape_of s input))]"
proof -
  let ?sh = "shape_of s input"
  let ?axs = "axis_set s input options"
  let ?buf = "data_of s input"
  let ?sq = "\<lparr>shape = length (arrays s), data = length (buffers s)\<rparr>"
  let ?s0 = "s\<lparr>arrays := arrays s @ [arrays s ! shape input],
        buffers := buffers s @ [map (\<lambda>x. Math_pow x 2) (buffers s ! data input)]\<rparr>"
  note vp = validates_parts[OF assms(3)]
  have al: "shape input < length (arrays s)" "data input < length (buffers s)"
    and wf: "length ?buf = sizeOfShape ?sh"
    using assms(1) by (simp_all add: tensor_ok_def data_of_def shape_of_def)
  have sq_sh: "shape_of ?s0 ?sq = ?sh" by (simp add: shape_of_def)
  have sq_d: "data_of ?s0 ?sq = map (\<lambda>x. x * x) ?buf" by (simp add: data_of_def)
  have sq_ax: "axis_set ?s0 ?sq options = ?axs"
    using assms(2)
    by (auto simp: axis_set_def axes_allocated_def rank_def shape_of_def nth_append
        split: option.splits)
  have t0: "tensor_ok ?s0 ?sq" using wf by (simp add: tensor_ok_def data_of_def shape_of_def)
  have a0: "axes_allocated ?s0 options"
    using assms(2) by (auto simp: axes_allocated_def split: option.splits)
  have v0: "validates ?s0 ?sq options"
    using assms(3) unfolding validates_def sq_ax sq_sh .
  obtain t s1 where r: "reduceSum ?sq options ?s0 = (Inr t, s1)"
    and tsh: "shape_of s1 t =
             (if keepDimensions options then with_ones ?axs ?sh
              else filter (\<lambda>d. d \<noteq> 1) (with_ones ?axs ?sh))"
    and td: "data_of s1 t = reduced_values sumReducer ?sh ?axs (map (\<lambda>x. x * x) ?buf)"
    using reduce_observed[OF t0 a0 v0, of sumReducer]
    unfolding reduceSum_def sq_ax sq_sh sq_d by blast
  have ss: "reduceSumSquare input options s = (Inr t, s1)"
    unfolding reduceSumSquare_def pow_eq using r by simp
  have td': "data_of s1 t =
             map (\<lambda>outputIndex. \<Sum>x\<leftarrow>gathered ?sh ?axs ?buf outputIndex. x * x)
               [0..<sizeOfShape (with_ones ?axs ?sh)]"
    unfolding td by (rule reduced_values_sum_of_squares[OF vp(2) vp(1) wf vp(3)])
  have nonneg: "\<forall>v\<in>set (data_of s1 t). 0 \<le> v"
    unfolding td' by (auto simp: sum_list_squares_nonneg)
  then have root: "map (\<lambda>x. Math_pow x (1 / 2)) (data_of s1 t) = map sqrt (data_of s1 t)"
    by (intro map_cong refl) (simp add: Math_pow_half)
  have len: "length (data_of s1 t) = sizeOfShape (with_ones ?axs ?sh)" unfolding td' by simp
  show ?thesis
  proof (cases "rank s1 t = 0")
    case True
    then have "shape_of s1 t = []" by (simp add: rank_def shape_of_def)
    then have "sizeOfShape (with_ones ?axs ?sh) = 1"
      unfolding tsh by (rule squeeze_scalar_size)
    then obtain v where v: "data_of s1 t = [v]"
      using len by (cases "data_of s1 t") auto
    then have v0: "0 \<le> v" using nonneg by simp
    let ?t2 = "\<lparr>shape = length (arrays s1), data = length (buffers s1)\<rparr>"
    let ?s2 = "s1\<lparr>arrays := arrays s1 @ [[]], buffers := buffers s1 @ [[sqrt v]]\<rparr>"
    have g: "getValueByIndex s1 t 0 = Inr v"
      using v by (simp add: getValueByIndex_def data_of_def)
    have l2: "reduceL2 input options s = (Inr ?t2, ?s2)"
      unfolding reduceL2_def ss using True g
      by (simp add: new_Tensor_from_def Math_pow_half[OF v0])
    have "shape_of ?s2 ?t2 = shape_of s1 t" using \<open>shape_of s1 t = []\<close> by (simp add: shape_of_def)
    moreover have "data_of ?s2 ?t2 = map sqrt (data_of s1 t)" using v by (simp add: data_of_def)
    ultimately show ?thesis using ss l2 td' by blast
  next
    case False
    let ?t2 = "\<lparr>shape = length (arrays s1), data = length (buffers s1)\<rparr>"
    let ?s2 = "s1\<lparr>arrays := arrays s1 @ [arrays s1 ! shape t],
        buffers := buffers s1 @ [map (\<lambda>x. Math_pow x (1 / 2)) (buffers s1 ! data t)]\<rparr>"
    have l2: "reduceL2 input options s = (Inr ?t2, ?s2)"
      unfolding reduceL2_def ss using False by (simp add: pow_eq)
    have "shape_of ?s2 ?t2 = shape_of s1 t" by (simp add: shape_of_def)
    moreover have "data_of ?s2 ?t2 = map sqrt (data_of s1 t)"
      using root by (simp add: data_of_def)
    ultimately show ?thesis using ss l2 td' by blast
  qed
qed

theorem reduceL2_is_sqrt_of_reduceSumSquare_witness:
  "tensor_ok norm_store scenario_input \<and>
   axes_allocated norm_store \<lparr>keepDimensions = False, axes = None\<rparr> \<and>
   validates norm_store scenario_input \<lparr>keepDimensions = False, axes = None\<rparr> \<and>
   (\<exists>t s1 t2 s2.
      reduceSumSquare scenario_input \<lparr>keepDimensions = False, axes = None\<rparr> norm_store = (Inr t, s1) \<and>
      reduceL2 scenario_input \<lparr>keepDimensions = False, axes = None\<rparr> norm_store = (Inr t2, s2) \<and>
      data_of s1 t = [25] \<and> shape_of s2 t2 = shape_of s1 t \<and> data_of s2 t2 = [5])"
proof -
  let ?o = "\<lparr>keepDimensions = False, axes = None\<rparr>"
  have h1: "tensor_ok norm_store scenario_input"
    by (simp add: tensor_ok_def norm_store_def scenario_input_def sizeOfShape_def)
  have h2: "axes_allocated norm_store ?o" by (simp add: axes_allocated_def)
  have h3: "validates norm_store scenario_input ?o"
    by (simp add: validates_def axis_set_def rank_def shape_of_def norm_store_def scenario_input_def
        sizeOfShape_def)
  have g: "map (\<lambda>outputIndex.
                    \<Sum>x\<leftarrow>gathered (shape_of norm_store scenario_input)
                          (axis_set norm_store scenario_input ?o)
                          (data_of norm_store scenario_input) outputIndex. x * x)
               [0..<sizeOfShape (with_ones (axis_set norm_store scenario_input ?o)
                                   (shape_of norm_store scenario_input))] = [25]"
    by code_simp
  have sq: "sqrt 25 = 5"
    using real_sqrt_abs[of 5] by simp
  show ?thesis
    using h1 h2 h3 reduceL2_is_sqrt_of_reduceSumSquare[OF h1 h2 h3] unfolding g
    by (auto simp: sq)
qed

subsection \<open>C9: the input is left alone\<close>




subsection \<open>C10: the caller's axes array is sorted in place\<close>

text \<open>
  C10.  When a call of \<^verbatim>\<open>reduce\<close> with an explicit axes array returns, the very array the
  caller passed holds its former entries in ascending order: \<^verbatim>\<open>reduce\<close> works on the
  caller's array, not on a copy.  In the witness the caller's \<^verbatim>\<open>[1,0]\<close> is \<^verbatim>\<open>[0,1]\<close> after
  the call.
\<close>

theorem reduce_sorts_callers_axes_in_place:
  fixes s :: "'a::zero store"
  assumes "tensor_ok s input" and "axes options = Some r" and "r < length (arrays s)"
    and "reduce input f options s = (Inr out, s')"
  shows "arrays s' ! r = sort (arrays s ! r) \<and> sorted (arrays s' ! r) \<and>
         length (arrays s) \<le> length (arrays s')"
proof -
  have ax: "axes_allocated s options" using assms(2,3) by (simp add: axes_allocated_def)
  have v: "validates s input options" using assms(1) ax assms(4) by (rule reduce_returns_validates)
  have axs: "axis_set s input options = arrays s ! r" using assms(2) by (simp add: axis_set_def)
  have "arrays s' = (arrays s)[r := sort (arrays s ! r)] @
           [with_ones (arrays s ! r) (shape_of s input)] @
                 (if keepDimensions options then []
                  else [filter (\<lambda>d. d \<noteq> 1) (with_ones (arrays s ! r) (shape_of s input))])"
    using reduce_ok[OF assms(1) ax v, of f] assms(2,4) by (auto simp: Let_def axs)
  then show ?thesis using assms(3) by (simp add: nth_append)
qed

theorem reduce_sorts_callers_axes_in_place_witness:
  "tensor_ok scenario_store scenario_input \<and>
   3 < length (arrays scenario_store) \<and>
   arrays scenario_store ! 3 = [1, 0] \<and>
   reduce scenario_input sumReducer \<lparr>keepDimensions = False, axes = Some 3\<rparr> scenario_store =
     (Inr \<lparr>shape = 8, data = 1\<rparr>,
      \<lparr>arrays = [[2, 3], [1], [0], [0, 1], [], [2], [0, 0], [1, 1], []],
        buffers = [[1, 2, 3, 4, 5, 6], [21]]\<rparr>) \<and>
   arrays \<lparr>arrays = [[2, 3], [1], [0], [0, 1], [], [2], [0, 0], [1, 1], []],
           buffers = [[1, 2, 3, 4, 5, 6], [21::real]]\<rparr> ! 3 = [0, 1]"
proof -
  let ?o = "\<lparr>keepDimensions = False, axes = Some 3\<rparr>"
  have h1: "tensor_ok scenario_store scenario_input"
    by (simp add: tensor_ok_def scenario_store_def scenario_input_def sizeOfShape_def)
  have h2: "axes ?o = Some 3" by simp
  have h3: "3 < length (arrays scenario_store)" by (simp add: scenario_store_def)
  have h4: "reduce scenario_input sumReducer ?o scenario_store =
     (Inr \<lparr>shape = 8, data = 1\<rparr>,
      \<lparr>arrays = [[2, 3], [1], [0], [0, 1], [], [2], [0, 0], [1, 1], []],
        buffers = [[1, 2, 3, 4, 5, 6], [21]]\<rparr>)"
    by code_simp
  have a: "arrays scenario_store ! 3 = [1, 0]" by (simp add: scenario_store_def)
  have s: "sort (arrays scenario_store ! 3) = [0, 1]" unfolding a by simp
  show ?thesis
    using h1 h3 a h4 reduce_sorts_callers_axes_in_place[OF h1 h2 h3 h4] unfolding s by simp
qed

end
